theory Spec2Isabelle
  imports Complex_Main "HOL-Library.AList" "HOL-Library.Multiset"
begin

section \<open>The network environment of env.py\<close>

text \<open>
  The class \<open>NetworkEnv\<close> is embedded by explicit state passing: the attributes of
  \<open>self\<close> are the fields of the record \<open>env\<close>, every method takes the environment
  and returns the updated one, and every exception that the Python code can raise is a
  value of the type \<open>error\<close>, returned next to the environment as it stands when the
  exception leaves the method.

  Three libraries are used by the source and are not part of it.
  \<^item> \<open>networkx\<close>: the class \<open>Graph\<close> is modelled by its adjacency structure (the order
    of insertion of nodes and neighbours kept, as Python dictionaries keep it);
    \<open>nx.shortest_path\<close> is a parameter \<open>sp\<close> of the model.
  \<^item> \<open>numpy.random\<close>: the outcome of every random draw is a parameter
    (\<open>random_source\<close> for the two shuffles, \<open>draw\<close> for the traffic matrix).
  \<^item> \<open>gym\<close>: whether \<open>spaces.Box\<close> and \<open>spaces.MultiBinary\<close> accept the number of links
    that the constructor hands them is a parameter \<open>spaces\<close> of the model.

  Numbers: node identifiers are naturals, capacities, traffic demands and usage values
  are integers (the \<open>float\<close> usage array only ever holds sums of integer demands), and
  the entries of an observation are exact rationals (the rounding to \<open>float32\<close> is not
  modelled).
\<close>

datatype error =
  IndexError | KeyError | TypeError | ValueError | AssertionError | NetworkXNoPath | NodeNotFound

subsection \<open>The graph class of networkx\<close>

record nx_graph =
  g_nodes :: "nat list"
  g_adj :: "nat \<Rightarrow> (nat \<times> int) list"

text \<open>\<open>g_adj g u\<close> lists the neighbours of \<open>u\<close> in insertion order, each with the
  \<open>capacity\<close> attribute of the edge; a node without neighbours has the empty list.\<close>

definition empty_graph :: nx_graph where
  "empty_graph = \<lparr>g_nodes = [], g_adj = (\<lambda>_. [])\<rparr>"

definition add_node :: "nx_graph \<Rightarrow> nat \<Rightarrow> nx_graph" where
  "add_node g n = (if n \<in> set (g_nodes g) then g else g\<lparr>g_nodes := g_nodes g @ [n]\<rparr>)"

definition has_edge :: "nx_graph \<Rightarrow> nat \<Rightarrow> nat \<Rightarrow> bool" where
  "has_edge g u v = (v \<in> fst ` set (g_adj g u))"

text \<open>\<open>add_edge\<close> adds missing end points, then stores the attribute under both
  directions; an existing entry keeps its position (as a dictionary update does).\<close>

definition add_edge :: "nx_graph \<Rightarrow> nat \<Rightarrow> nat \<Rightarrow> int \<Rightarrow> nx_graph" where
  "add_edge g u v c =
     (let g1 = add_node (add_node g u) v;
          a1 = (g_adj g1)(u := AList.update v c (g_adj g1 u));
          a2 = a1(v := AList.update u c (a1 v))
      in g1\<lparr>g_adj := a2\<rparr>)"

text \<open>The degree view counts a self loop twice.\<close>

definition degree :: "nx_graph \<Rightarrow> nat \<Rightarrow> nat" where
  "degree g u = length (g_adj g u) + (if has_edge g u u then 1 else 0)"

text \<open>\<open>G.edges\<close> visits the nodes in order and reports each neighbour that has not been
  visited as a node before.\<close>

fun edges_from :: "nx_graph \<Rightarrow> nat list \<Rightarrow> nat list \<Rightarrow> (nat \<times> nat) list" where
  "edges_from g [] seen = []"
| "edges_from g (n # ns) seen =
     [(n, nbr). nbr \<leftarrow> map fst (g_adj g n), nbr \<notin> set seen] @ edges_from g ns (n # seen)"

definition edges :: "nx_graph \<Rightarrow> (nat \<times> nat) list" where
  "edges g = edges_from g (g_nodes g) []"

text \<open>\<open>number_of_edges\<close> is the number of edges that \<open>edges\<close> reports.\<close>

definition number_of_edges :: "nx_graph \<Rightarrow> nat" where
  "number_of_edges g = length (edges g)"

text \<open>\<open>G[u][v]['capacity']\<close>: \<open>None\<close> stands for the \<open>KeyError\<close> of a missing edge.\<close>

definition capacity :: "nx_graph \<Rightarrow> nat \<Rightarrow> nat \<Rightarrow> int option" where
  "capacity g u v = map_of (g_adj g u) v"

text \<open>\<open>nx.shortest_path(G, source, target)\<close>: \<open>Inr\<close> a list of nodes, \<open>Inl NetworkXNoPath\<close>
  when the target cannot be reached, \<open>Inl NodeNotFound\<close> for a node that is not in \<open>G\<close>.\<close>

type_synonym shortest_path = "nx_graph \<Rightarrow> nat \<Rightarrow> nat \<Rightarrow> error + nat list"

subsection \<open>The environment\<close>

record random_source =
  shuffle_nodes :: "nat list \<Rightarrow> nat list"
  shuffle_pairs :: "(nat \<times> nat) list \<Rightarrow> (nat \<times> nat) list"

record env =
  num_nodes :: int
  max_interfaces :: int
  max_capacity :: int
  max_steps :: int
  current_step :: int
  traffic :: "(nat \<Rightarrow> nat \<Rightarrow> int) option"
  graph_nx :: nx_graph
  num_edges :: nat
  edge_list :: "(nat \<times> nat) list"
  usage :: "int list"
  link_open :: "int list"

record info =
  overloaded_links :: nat

subsection \<open>\<open>_build_topology\<close>\<close>

text \<open>Step 1 of the source: \<open>for i in range(len(all_nodes) - 1)\<close>, linking
  \<open>all_nodes[i]\<close> to \<open>all_nodes[i + 1]\<close> unless the edge is there.\<close>

fun connect_chain :: "nat list \<Rightarrow> int \<Rightarrow> nx_graph \<Rightarrow> nx_graph" where
  "connect_chain (u # v # rest) c g =
     connect_chain (v # rest) c (if \<not> has_edge g u v then add_edge g u v c else g)"
| "connect_chain _ c g = g"

definition possible_edges :: "nat \<Rightarrow> nx_graph \<Rightarrow> (nat \<times> nat) list" where
  "possible_edges n g = [(i, j). i \<leftarrow> [0..<n], j \<leftarrow> [i + 1..<n], \<not> has_edge g i j]"

text \<open>Step 2 of the source: an edge is added when both end points are below the
  interface limit.\<close>

definition add_random_edges :: "int \<Rightarrow> int \<Rightarrow> (nat \<times> nat) list \<Rightarrow> nx_graph \<Rightarrow> nx_graph" where
  "add_random_edges max_if c ps g =
     fold (\<lambda>(u, v) g.
             if int (degree g u) < max_if \<and> int (degree g v) < max_if
             then add_edge g u v c else g) ps g"

definition build_topology :: "int \<Rightarrow> int \<Rightarrow> int \<Rightarrow> random_source \<Rightarrow> nx_graph" where
  "build_topology n max_if c rnd =
     (let g0 = fold (\<lambda>k g. add_node g k) [0..<nat n] empty_graph;
          all_nodes = shuffle_nodes rnd [0..<nat n];
          g1 = connect_chain all_nodes c g0;
          ps = shuffle_pairs rnd (possible_edges (nat n) g1)
      in add_random_edges max_if c ps g1)"

subsection \<open>\<open>__init__\<close>\<close>

text \<open>\<open>np.random.seed\<close> accepts an integer seed from \<open>0\<close> to \<open>2^32 - 1\<close> and raises
  \<open>ValueError\<close> for any other. After the topology is built, the constructor declares
  the observation space (\<open>spaces.Box\<close> over \<open>2 * num_edges\<close> bounds) and the action space
  (\<open>spaces.MultiBinary(num_edges)\<close>): \<open>spaces k\<close> is the exception that these declarations
  raise for \<open>k\<close> links, \<open>None\<close> when they raise none. Before \<open>reset\<close>, the attribute
  \<open>link_open\<close> does not exist; the model holds the empty list there, which no method
  reads before writing it.\<close>

type_synonym gym_spaces = "nat \<Rightarrow> error option"

definition seed_ok :: "int option \<Rightarrow> bool" where
  "seed_ok seed = (case seed of None \<Rightarrow> True | Some k \<Rightarrow> 0 \<le> k \<and> k < 2 ^ 32)"

definition NetworkEnv_init ::
  "int \<Rightarrow> int \<Rightarrow> int \<Rightarrow> int \<Rightarrow> int option \<Rightarrow> random_source \<Rightarrow> gym_spaces \<Rightarrow> error + env" where
  "NetworkEnv_init n max_if max_cap steps seed rnd spaces =
     (if \<not> seed_ok seed then Inl ValueError
      else
        let g = build_topology n max_if max_cap rnd;
            ne = number_of_edges g
        in case spaces ne of
             Some err \<Rightarrow> Inl err
           | None \<Rightarrow>
               Inr \<lparr>num_nodes = n, max_interfaces = max_if, max_capacity = max_cap,
                    max_steps = steps, current_step = 0, traffic = None, graph_nx = g,
                    num_edges = ne, edge_list = edges g, usage = replicate ne 0,
                    link_open = []\<rparr>)"

subsection \<open>\<open>_edge_index\<close> and \<open>_count_overloaded_links\<close>\<close>

fun edge_index :: "(nat \<times> nat) list \<Rightarrow> nat \<Rightarrow> nat \<Rightarrow> nat option" where
  "edge_index [] u v = None"
| "edge_index ((x, y) # es) u v =
     (if (x = u \<and> y = v) \<or> (x = v \<and> y = u) then Some 0
      else map_option Suc (edge_index es u v))"

text \<open>The loop of \<open>_count_overloaded_links\<close>, with the position \<open>i\<close> of \<open>enumerate\<close> and
  the counter \<open>overloaded\<close>.\<close>

fun count_from :: "nx_graph \<Rightarrow> int list \<Rightarrow> (nat \<times> nat) list \<Rightarrow> nat \<Rightarrow> nat \<Rightarrow> error + nat" where
  "count_from g us [] i overloaded = Inr overloaded"
| "count_from g us ((u, v) # es) i overloaded =
     (case capacity g u v of
        None \<Rightarrow> Inl KeyError
      | Some cap \<Rightarrow>
          if \<not> i < length us then Inl IndexError
          else count_from g us es (i + 1) (if us ! i > cap then overloaded + 1 else overloaded))"

definition count_overloaded_links :: "env \<Rightarrow> error + nat" where
  "count_overloaded_links e = count_from (graph_nx e) (usage e) (edge_list e) 0 0"

subsection \<open>\<open>_update_link_usage\<close>\<close>

text \<open>The loop that builds \<open>G_open\<close>: the entry \<open>link_open[i]\<close> is read for every link,
  the capacity only for an open one.\<close>

fun open_subgraph ::
  "nx_graph \<Rightarrow> int list \<Rightarrow> (nat \<times> nat) list \<Rightarrow> nat \<Rightarrow> nx_graph \<Rightarrow> error + nx_graph" where
  "open_subgraph g lo [] i G = Inr G"
| "open_subgraph g lo ((u, v) # es) i G =
     (if \<not> i < length lo then Inl IndexError
      else if lo ! i = 1 then
        (case capacity g u v of
           None \<Rightarrow> Inl KeyError
         | Some c \<Rightarrow> open_subgraph g lo es (i + 1) (add_edge G u v c))
      else open_subgraph g lo es (i + 1) G)"

text \<open>The inner loop over the path: \<open>for k in range(len(path) - 1)\<close>. The usage vector
  is updated in place, so it is returned also when an exception stops the loop.\<close>

fun add_path_usage ::
  "(nat \<times> nat) list \<Rightarrow> int \<Rightarrow> nat list \<Rightarrow> int list \<Rightarrow> error option \<times> int list" where
  "add_path_usage el d (u # v # rest) us =
     (case edge_index el u v of
        None \<Rightarrow> add_path_usage el d (v # rest) us
      | Some k \<Rightarrow>
          if \<not> k < length us then (Some IndexError, us)
          else add_path_usage el d (v # rest) (us[k := us ! k + d]))"
| "add_path_usage el d _ us = (None, us)"

text \<open>The two nested loops over \<open>(i, j)\<close>, given as the list of pairs in the order of
  the loops. Only \<open>NetworkXNoPath\<close> is caught.\<close>

fun route_demands ::
  "shortest_path \<Rightarrow> nx_graph \<Rightarrow> (nat \<times> nat) list \<Rightarrow> (nat \<Rightarrow> nat \<Rightarrow> int) option \<Rightarrow>
   (nat \<times> nat) list \<Rightarrow> int list \<Rightarrow> error option \<times> int list" where
  "route_demands sp G el tr [] us = (None, us)"
| "route_demands sp G el tr ((i, j) # ps) us =
     (case tr of
        None \<Rightarrow> (Some TypeError, us)
      | Some t \<Rightarrow>
          if t i j > 0 \<and> i \<noteq> j then
            (case sp G i j of
               Inl err \<Rightarrow>
                 if err = NetworkXNoPath then route_demands sp G el tr ps us
                 else (Some err, us)
             | Inr path \<Rightarrow>
                 (case add_path_usage el (t i j) path us of
                    (Some err, us') \<Rightarrow> (Some err, us')
                  | (None, us') \<Rightarrow> route_demands sp G el tr ps us'))
          else route_demands sp G el tr ps us)"

definition update_link_usage :: "shortest_path \<Rightarrow> env \<Rightarrow> error option \<times> env" where
  "update_link_usage sp e =
     (let e1 = e\<lparr>usage := replicate (num_edges e) 0\<rparr>;
          G0 = fold (\<lambda>k g. add_node g k) (g_nodes (graph_nx e)) empty_graph
      in case open_subgraph (graph_nx e) (link_open e) (edge_list e) 0 G0 of
           Inl err \<Rightarrow> (Some err, e1)
         | Inr G_open \<Rightarrow>
             (case route_demands sp G_open (edge_list e) (traffic e)
                     (List.product [0..<nat (num_nodes e)] [0..<nat (num_nodes e)]) (usage e1) of
                (r, us) \<Rightarrow> (r, e1\<lparr>usage := us\<rparr>)))"

subsection \<open>\<open>_get_observation\<close>\<close>

fun observe ::
  "nx_graph \<Rightarrow> int list \<Rightarrow> int list \<Rightarrow> (nat \<times> nat) list \<Rightarrow> nat \<Rightarrow> rat list \<Rightarrow> error + rat list" where
  "observe g us lo [] i obs = Inr obs"
| "observe g us lo ((u, v) # es) i obs =
     (case capacity g u v of
        None \<Rightarrow> Inl KeyError
      | Some cap \<Rightarrow>
          if cap > 0 \<and> \<not> i < length us then Inl IndexError
          else if \<not> i < length lo then Inl IndexError
          else
            let usage_ratio = (if cap > 0 then of_int (us ! i) / of_int cap else 0);
                is_open = of_int (lo ! i)
            in observe g us lo es (i + 1) (obs @ [usage_ratio, is_open]))"

definition get_observation :: "env \<Rightarrow> error + rat list" where
  "get_observation e = observe (graph_nx e) (usage e) (link_open e) (edge_list e) 0 []"

subsection \<open>\<open>reset\<close> and \<open>step\<close>\<close>

text \<open>\<open>draw i j\<close> is what \<open>np.random.randint\<close> puts at \<open>[i, j]\<close>; a negative size makes it
  raise \<open>ValueError\<close>. The loop then clears the diagonal.\<close>

definition reset ::
  "shortest_path \<Rightarrow> env \<Rightarrow> (nat \<Rightarrow> nat \<Rightarrow> int) \<Rightarrow> (error + rat list) \<times> env" where
  "reset sp e draw =
     (let e1 = e\<lparr>current_step := 0\<rparr> in
      if num_nodes e < 0 then (Inl ValueError, e1)
      else
        let t = fold (\<lambda>i t. t(i := (t i)(i := 0))) [0..<nat (num_nodes e)] draw;
            e2 = e1\<lparr>traffic := Some t\<rparr>;
            e3 = e2\<lparr>usage := replicate (num_edges e) 0\<rparr>;
            e4 = e3\<lparr>link_open := replicate (num_edges e) 1\<rparr>
        in case update_link_usage sp e4 of
             (Some err, e5) \<Rightarrow> (Inl err, e5)
           | (None, e5) \<Rightarrow>
               (case get_observation e5 of
                  Inl err \<Rightarrow> (Inl err, e5)
                | Inr obs \<Rightarrow> (Inr obs, e5)))"

definition step ::
  "shortest_path \<Rightarrow> env \<Rightarrow> int list \<Rightarrow> (error + rat list \<times> int \<times> bool \<times> info) \<times> env" where
  "step sp e action =
     (let e1 = e\<lparr>current_step := current_step e + 1\<rparr>;
          e2 = e1\<lparr>link_open := action\<rparr>
      in case update_link_usage sp e2 of
           (Some err, e3) \<Rightarrow> (Inl err, e3)
         | (None, e3) \<Rightarrow>
             (case count_overloaded_links e3 of
                Inl err \<Rightarrow> (Inl err, e3)
              | Inr overloaded \<Rightarrow>
                  let reward = - int overloaded;
                      is_done = (current_step e3 \<ge> max_steps e3)
                  in (case get_observation e3 of
                        Inl err \<Rightarrow> (Inl err, e3)
                      | Inr obs \<Rightarrow>
                          (Inr (obs, reward, is_done, \<lparr>overloaded_links = overloaded\<rparr>), e3))))"

text \<open>The environment after a sequence of \<open>step\<close> calls, whatever each call returned
  or raised.\<close>

definition after_steps :: "shortest_path \<Rightarrow> env \<Rightarrow> int list list \<Rightarrow> env" where
  "after_steps sp e acts = foldl (\<lambda>e' a. snd (step sp e' a)) e acts"

text \<open>What a \<open>step\<close> call returns apart from the \<open>done\<close> flag.\<close>

definition without_done ::
  "error + rat list \<times> int \<times> bool \<times> info \<Rightarrow> error + rat list \<times> int \<times> info" where
  "without_done r = map_sum (\<lambda>err. err) (\<lambda>(obs, rw, d, i). (obs, rw, i)) r"

text \<open>The value of \<open>step\<close> in terms of the routing result \<open>U\<close> (used in proofs).\<close>

definition step_outcome ::
  "env \<Rightarrow> error option \<times> env \<Rightarrow> error + rat list \<times> int \<times> bool \<times> info" where
  "step_outcome e U =
     (case fst U of
        Some err \<Rightarrow> Inl err
      | None \<Rightarrow>
          (case count_overloaded_links (snd U) of
             Inl err \<Rightarrow> Inl err
           | Inr n \<Rightarrow>
               (case get_observation (snd U) of
                  Inl err \<Rightarrow> Inl err
                | Inr obs \<Rightarrow>
                    Inr (obs, - int n, max_steps e \<le> current_step e + 1,
                         \<lparr>overloaded_links = n\<rparr>))))"

section \<open>Contracts of the library functions\<close>

text \<open>\<open>np.random.shuffle\<close> permutes its argument.\<close>

definition is_shuffle :: "('a list \<Rightarrow> 'a list) \<Rightarrow> bool" where
  "is_shuffle f = (\<forall>xs. mset (f xs) = mset xs)"

text \<open>The space declarations of \<open>gym\<close> accept every positive number of links. (Whether
  they accept none depends on the version of the library: \<open>spaces.MultiBinary(0)\<close> fails
  an assertion in the later ones.)\<close>

definition spaces_accept_links :: "gym_spaces \<Rightarrow> bool" where
  "spaces_accept_links spaces = (\<forall>k. 0 < k \<longrightarrow> spaces k = None)"

text \<open>A list of nodes is a walk of \<open>G\<close> when consecutive nodes are adjacent. What
  \<open>nx.shortest_path\<close> returns is a walk of the graph it was given (\<open>sp_sound\<close>), and it
  raises nothing but \<open>NetworkXNoPath\<close> when both end points are nodes of that graph
  (\<open>sp_total\<close>).\<close>

fun is_walk :: "nx_graph \<Rightarrow> nat list \<Rightarrow> bool" where
  "is_walk g (u # v # rest) = (has_edge g u v \<and> is_walk g (v # rest))"
| "is_walk g _ = True"

definition sp_sound :: "shortest_path \<Rightarrow> bool" where
  "sp_sound sp = (\<forall>G s t p. sp G s t = Inr p \<longrightarrow> is_walk G p)"

definition sp_total :: "shortest_path \<Rightarrow> bool" where
  "sp_total sp =
     (\<forall>G s t err. sp G s t = Inl err \<longrightarrow>
        err = NetworkXNoPath \<or> s \<notin> set (g_nodes G) \<or> t \<notin> set (g_nodes G))"

text \<open>An instance of the contract: breadth-first search by levels, the neighbours taken
  in adjacency order. The frontier holds the paths of the current level, each reversed.\<close>

fun bfs_extend :: "nx_graph \<Rightarrow> nat list list \<Rightarrow> nat list \<Rightarrow> nat list list \<times> nat list" where
  "bfs_extend g [] vis = ([], vis)"
| "bfs_extend g (p # ps) vis =
     (let new = filter (\<lambda>v. v \<notin> set vis) (map fst (g_adj g (hd p)))
      in case bfs_extend g ps (vis @ new) of
           (rest, vis') \<Rightarrow> (map (\<lambda>v. v # p) new @ rest, vis'))"

fun bfs :: "nx_graph \<Rightarrow> nat \<Rightarrow> nat \<Rightarrow> nat list list \<Rightarrow> nat list \<Rightarrow> nat list option" where
  "bfs g t 0 fr vis = None"
| "bfs g t (Suc k) fr vis =
     (case find (\<lambda>p. hd p = t) fr of
        Some p \<Rightarrow> Some (rev p)
      | None \<Rightarrow> (case bfs_extend g fr vis of (fr', vis') \<Rightarrow> bfs g t k fr' vis'))"

definition bfs_shortest_path :: shortest_path where
  "bfs_shortest_path g s t =
     (if s \<notin> set (g_nodes g) \<or> t \<notin> set (g_nodes g) then Inl NodeNotFound
      else case bfs g t (Suc (length (g_nodes g))) [[s]] [s] of
             None \<Rightarrow> Inl NetworkXNoPath
           | Some p \<Rightarrow> Inr p)"

section \<open>Properties stated by the specification\<close>

text \<open>The graph is connected: every node is reachable from every node over edges.\<close>

definition graph_connected :: "nx_graph \<Rightarrow> bool" where
  "graph_connected g =
     (\<forall>u \<in> set (g_nodes g). \<forall>v \<in> set (g_nodes g). (u, v) \<in> {(a, b). has_edge g a b}\<^sup>*)"

text \<open>The same for a list of links, as the environment keeps it: every node of \<open>ns\<close> is
  reachable from every node of \<open>ns\<close> over links of \<open>es\<close>, taken in either direction.\<close>

definition links_connected :: "nat list \<Rightarrow> (nat \<times> nat) list \<Rightarrow> bool" where
  "links_connected ns es =
     (\<forall>u \<in> set ns. \<forall>v \<in> set ns. (u, v) \<in> {(a, b). (a, b) \<in> set es \<or> (b, a) \<in> set es}\<^sup>*)"

text \<open>Invariants of the graphs that the constructor builds (used in proofs): nodes and
  neighbours are listed once, and no node is its own neighbour.\<close>

definition graph_inv :: "nx_graph \<Rightarrow> bool" where
  "graph_inv g = (distinct (g_nodes g) \<and> (\<forall>u. distinct (map fst (g_adj g u))))"

definition no_loops :: "nx_graph \<Rightarrow> bool" where
  "no_loops g = (\<forall>u. \<not> has_edge g u u)"

text \<open>Every edge carries the capacity \<open>c\<close> (used in proofs).\<close>

definition graph_caps :: "int \<Rightarrow> nx_graph \<Rightarrow> bool" where
  "graph_caps c g = (\<forall>u. \<forall>p \<in> set (g_adj g u). snd p = c)"

text \<open>Adjacency is symmetric (used in proofs).\<close>

definition sym_graph :: "nx_graph \<Rightarrow> bool" where
  "sym_graph g = (\<forall>a b. has_edge g a b \<longrightarrow> has_edge g b a)"

text \<open>The end points of every edge are nodes (used in proofs).\<close>

definition ends_are_nodes :: "nx_graph \<Rightarrow> bool" where
  "ends_are_nodes g =
     (\<forall>a b. has_edge g a b \<longrightarrow> a \<in> set (g_nodes g) \<and> b \<in> set (g_nodes g))"

text \<open>The capacity of link \<open>i\<close>, and the overload count of the specification: the number
  of links whose usage is strictly above their capacity.\<close>

definition link_capacity :: "env \<Rightarrow> nat \<Rightarrow> int option" where
  "link_capacity e i = (case edge_list e ! i of (u, v) \<Rightarrow> capacity (graph_nx e) u v)"

definition above_capacity :: "int option \<Rightarrow> int \<Rightarrow> bool" where
  "above_capacity c u = (case c of None \<Rightarrow> False | Some cap \<Rightarrow> u > cap)"

definition link_overloaded :: "env \<Rightarrow> nat \<Rightarrow> bool" where
  "link_overloaded e i = above_capacity (link_capacity e i) (usage e ! i)"

definition overload_count :: "env \<Rightarrow> nat" where
  "overload_count e = length (filter (link_overloaded e) [0..<length (edge_list e)])"

text \<open>The layout of an observation as the specification gives it: two entries per link,
  the usage ratio (\<open>0\<close> for capacity \<open>0\<close>) and the open flag.\<close>

definition ratio_of :: "int option \<Rightarrow> int \<Rightarrow> rat" where
  "ratio_of c u =
     (case c of None \<Rightarrow> 0 | Some cap \<Rightarrow> if cap = 0 then 0 else of_int u / of_int cap)"

definition usage_ratio :: "env \<Rightarrow> nat \<Rightarrow> rat" where
  "usage_ratio e i = ratio_of (link_capacity e i) (usage e ! i)"

text \<open>The ratio as \<open>_get_observation\<close> computes it, with its guard \<open>cap > 0\<close> (used in
  proofs).\<close>

definition code_ratio :: "int option \<Rightarrow> int \<Rightarrow> rat" where
  "code_ratio c u =
     (case c of None \<Rightarrow> 0 | Some cap \<Rightarrow> if cap > 0 then of_int u / of_int cap else 0)"

definition open_flag :: "env \<Rightarrow> nat \<Rightarrow> rat" where
  "open_flag e i = (if link_open e ! i = 1 then 1 else 0)"

definition obs_layout :: "env \<Rightarrow> rat list \<Rightarrow> bool" where
  "obs_layout e obs =
     (length obs = 2 * length (edge_list e) \<and>
      (\<forall>i < length (edge_list e).
         obs ! (2 * i) = usage_ratio e i \<and> obs ! (2 * i + 1) = open_flag e i))"

definition caps_nonneg :: "env \<Rightarrow> bool" where
  "caps_nonneg e =
     (\<forall>i \<in> set [0..<length (edge_list e)].
        case link_capacity e i of None \<Rightarrow> True | Some cap \<Rightarrow> 0 \<le> cap)"

text \<open>What the constructor establishes and no method changes: the link list has
  \<open>num_edges\<close> entries, no link occurs twice in it (in either direction), every link has
  a capacity in the graph, and the nodes \<open>0, ..., num_nodes - 1\<close> are nodes of the graph.\<close>

definition link_key :: "nat \<times> nat \<Rightarrow> nat \<times> nat" where
  "link_key l = (min (fst l) (snd l), max (fst l) (snd l))"

definition wf_env :: "env \<Rightarrow> bool" where
  "wf_env e =
     (num_edges e = length (edge_list e) \<and>
      distinct (map link_key (edge_list e)) \<and>
      (\<forall>l \<in> set (edge_list e). capacity (graph_nx e) (fst l) (snd l) \<noteq> None) \<and>
      (\<forall>i \<in> set [0..<nat (num_nodes e)]. i \<in> set (g_nodes (graph_nx e))))"

text \<open>No traffic on closed links: every link whose flag in the link-state vector is not
  \<open>1\<close> (the test of the code for an open link) has usage \<open>0\<close>.\<close>

definition closed_links_idle :: "env \<Rightarrow> bool" where
  "closed_links_idle e =
     (\<forall>j \<in> set [0..<length (edge_list e)].
        j < length (link_open e) \<longrightarrow> link_open e ! j \<noteq> 1 \<longrightarrow> usage e ! j = 0)"

section \<open>A concrete environment\<close>

text \<open>Three nodes, every shuffle leaving its argument reversed, capacity \<open>10\<close>, horizon
  \<open>2\<close>; one demand of \<open>15\<close> from node \<open>0\<close> to node \<open>2\<close>.\<close>

definition rnd_rev :: random_source where
  "rnd_rev = \<lparr>shuffle_nodes = rev, shuffle_pairs = rev\<rparr>"

definition rnd_id :: random_source where
  "rnd_id = \<lparr>shuffle_nodes = (\<lambda>xs. xs), shuffle_pairs = (\<lambda>ps. ps)\<rparr>"

text \<open>The two behaviours of the space declarations: an empty action space refused with
  \<open>AssertionError\<close>, or accepted.\<close>

definition spaces_reject_empty :: gym_spaces where
  "spaces_reject_empty k = (if k = 0 then Some AssertionError else None)"

definition spaces_accept_all :: gym_spaces where
  "spaces_accept_all k = None"

definition demand_0_2 :: "nat \<Rightarrow> nat \<Rightarrow> int" where
  "demand_0_2 i j = (if i = 0 \<and> j = 2 then 15 else 0)"

definition triangle_env :: env where
  "triangle_env =
     (case NetworkEnv_init 3 4 10 2 None rnd_rev spaces_reject_empty of
        Inr e \<Rightarrow> snd (reset bfs_shortest_path e demand_0_2)
      | Inl err \<Rightarrow> undefined)"

section \<open>Frame properties of the methods\<close>

lemma update_usage_frame:
  "snd (update_link_usage sp e) = e\<lparr>usage := usage (snd (update_link_usage sp e))\<rparr>"
  by (simp add: update_link_usage_def Let_def split: sum.splits prod.splits option.splits)

lemma step_state:
  "snd (step sp e a) =
   snd (update_link_usage sp (e\<lparr>current_step := current_step e + 1, link_open := a\<rparr>))"
  by (simp add: step_def Let_def split: sum.splits prod.splits option.splits)

lemma step_frame:
  "snd (step sp e a) =
   e\<lparr>current_step := current_step e + 1, link_open := a, usage := usage (snd (step sp e a))\<rparr>"
  by (subst step_state, subst update_usage_frame) (simp add: step_state)

lemma reset_state:
  "snd (reset sp e draw) =
     (if num_nodes e < 0 then e\<lparr>current_step := 0\<rparr>
      else snd (update_link_usage sp
        (e\<lparr>current_step := 0,
           traffic := Some (fold (\<lambda>i t. t(i := (t i)(i := 0))) [0..<nat (num_nodes e)] draw),
           usage := replicate (num_edges e) 0,
           link_open := replicate (num_edges e) 1\<rparr>)))"
  by (simp add: reset_def Let_def split: sum.splits prod.splits option.splits)

lemma reset_counter: "current_step (snd (reset sp e draw)) = 0"
  by (subst reset_state, simp, subst update_usage_frame, simp)

lemma step_counter: "current_step (snd (step sp e a)) = current_step e + 1"
  by (subst step_frame) simp

lemma step_max_steps: "max_steps (snd (step sp e a)) = max_steps e"
  by (subst step_frame) simp

lemma after_steps_counter:
  "current_step (after_steps sp e acts) = current_step e + int (length acts)"
  unfolding after_steps_def
  by (induction acts arbitrary: e) (simp_all add: step_counter)

lemma after_steps_max_steps: "max_steps (after_steps sp e acts) = max_steps e"
  unfolding after_steps_def
  by (induction acts arbitrary: e) (simp_all add: step_max_steps)

lemma step_done:
  assumes "fst (step sp e a) = Inr (obs, r, d, i)"
  shows "d = (max_steps e \<le> current_step e + 1)"
proof -
  let ?e2 = "e\<lparr>current_step := current_step e + 1, link_open := a\<rparr>"
  let ?e3 = "snd (update_link_usage sp ?e2)"
  have c: "current_step ?e3 = current_step e + 1" "max_steps ?e3 = max_steps e"
    by (subst update_usage_frame, simp)+
  from assms have "d = (max_steps ?e3 \<le> current_step ?e3)"
    by (auto simp add: step_def Let_def split: sum.splits prod.splits option.splits)
  with c show ?thesis by simp
qed


lemma update_usage_counter_free:
  "update_link_usage sp (e\<lparr>current_step := k, link_open := a\<rparr>) =
   (fst (update_link_usage sp (e\<lparr>link_open := a\<rparr>)),
    (snd (update_link_usage sp (e\<lparr>link_open := a\<rparr>)))\<lparr>current_step := k\<rparr>)"
  by (simp add: update_link_usage_def Let_def split: sum.splits prod.splits option.splits)

lemma count_counter_free:
  "count_overloaded_links (e\<lparr>current_step := k\<rparr>) = count_overloaded_links e"
  by (simp add: count_overloaded_links_def)

lemma observation_counter_free:
  "get_observation (e\<lparr>current_step := k\<rparr>) = get_observation e"
  by (simp add: get_observation_def)

lemma step_unfold:
  "fst (step sp e a) = step_outcome e (update_link_usage sp (e\<lparr>link_open := a\<rparr>))"
proof -
  have m: "max_steps (snd (update_link_usage sp (e\<lparr>link_open := a\<rparr>))) = max_steps e"
    by (subst update_usage_frame) simp
  show ?thesis
    unfolding step_def Let_def update_usage_counter_free step_outcome_def
    by (simp add: count_counter_free observation_counter_free m
        split: sum.splits prod.splits option.splits)
qed

lemma step_counter_free:
  "without_done (fst (step sp (e\<lparr>current_step := k\<rparr>) a)) = without_done (fst (step sp e a))"
proof -
  have "update_link_usage sp (e\<lparr>current_step := k, link_open := a\<rparr>) =
        (fst (update_link_usage sp (e\<lparr>link_open := a\<rparr>)),
          (snd (update_link_usage sp (e\<lparr>link_open := a\<rparr>)))\<lparr>current_step := k\<rparr>)"
    by (rule update_usage_counter_free)
  then show ?thesis
    unfolding step_unfold step_outcome_def without_done_def
    by (simp add: count_counter_free observation_counter_free
        split: sum.splits prod.splits option.splits)
qed

section \<open>The step counter and the done flag\<close>

text \<open>
  Claim C6. After \<open>reset\<close> the step counter is \<open>0\<close>, and each \<open>step\<close> call adds
  exactly one to it (also a call that raises), so that after \<open>reset\<close> and any sequence
  of calls it is the number of calls. The \<open>done\<close> flag that a call returns is true
  exactly when the incremented counter has reached \<open>max_steps\<close>. Once a call has
  returned \<open>done = True\<close>, every later call that returns, after any number of calls in
  between, returns \<open>done = True\<close>. The counter never blocks a call: apart from the flag,
  what \<open>step\<close> returns or raises does not depend on the counter.
\<close>

theorem step_counter_and_done:
  "current_step (snd (reset sp e draw)) = 0 \<and>
   current_step (after_steps sp (snd (reset sp e draw)) acts) = int (length acts) \<and>
   current_step (snd (step sp e a)) = current_step e + 1 \<and>
   (\<forall>obs r d i. fst (step sp e a) = Inr (obs, r, d, i) \<longrightarrow>
      d = (max_steps e \<le> current_step (snd (step sp e a)))) \<and>
   (\<forall>obs r i obs' r' d' i'.
      fst (step sp e a) = Inr (obs, r, True, i) \<longrightarrow>
      fst (step sp (after_steps sp (snd (step sp e a)) acts) a') = Inr (obs', r', d', i') \<longrightarrow> d') \<and>
   without_done (fst (step sp (e\<lparr>current_step := k\<rparr>) a)) = without_done (fst (step sp e a))"
proof -
  have latch: "d'"
    if 1: "fst (step sp e a) = Inr (obs, r, True, i)"
    and 2: "fst (step sp (after_steps sp (snd (step sp e a)) acts) a') = Inr (obs', r', d', i')"
    for obs r i obs' r' d' i'
  proof -
    from 1 have "max_steps e \<le> current_step e + 1" using step_done by blast
    moreover from 2 have "d' = (max_steps (after_steps sp (snd (step sp e a)) acts)
        \<le> current_step (after_steps sp (snd (step sp e a)) acts) + 1)"
      by (rule step_done)
    ultimately show ?thesis
      by (simp add: after_steps_counter after_steps_max_steps step_counter step_max_steps)
  qed
  have dn: "d = (max_steps e \<le> current_step (snd (step sp e a)))"
    if "fst (step sp e a) = Inr (obs, r, d, i)" for obs r d i
    using step_done [OF that] by (simp add: step_counter)
  show ?thesis
    using latch dn
    by (simp add: reset_counter after_steps_counter step_counter step_counter_free) blast
qed

theorem step_counter_and_done_witness:
  "fst (step bfs_shortest_path triangle_env [1, 1, 1]) =
     Inr ([0, 1, 3 / 2, 1, 0, 1], - 1, False, \<lparr>overloaded_links = 1\<rparr>) \<and>
   fst (step bfs_shortest_path (snd (step bfs_shortest_path triangle_env [1, 1, 1])) [1, 0, 1]) =
     Inr ([3 / 2, 1, 0, 0, 3 / 2, 1], - 2, True, \<lparr>overloaded_links = 2\<rparr>) \<and>
   fst (step bfs_shortest_path
         (after_steps bfs_shortest_path triangle_env [[1, 1, 1], [1, 0, 1], [0, 0, 0, 0], [1, 1]])
         [0, 0, 1]) =
     Inr ([0, 0, 0, 0, 0, 1], 0, True, \<lparr>overloaded_links = 0\<rparr>) \<and>
   current_step (after_steps bfs_shortest_path triangle_env [[1, 1, 1], [1, 0, 1], [0, 0, 0, 0], [1, 1]]) = 4"
proof -
  let ?e1 = "snd (step bfs_shortest_path triangle_env [1, 1, 1])"
  have A: "fst (step bfs_shortest_path triangle_env [1, 1, 1]) =
     Inr ([0, 1, 3 / 2, 1, 0, 1], - 1, False, \<lparr>overloaded_links = 1\<rparr>)"
    by code_simp
  have B: "fst (step bfs_shortest_path ?e1 [1, 0, 1]) =
     Inr ([3 / 2, 1, 0, 0, 3 / 2, 1], - 2, True, \<lparr>overloaded_links = 2\<rparr>)"
    by code_simp
  have C: "fst (step bfs_shortest_path
         (after_steps bfs_shortest_path (snd (step bfs_shortest_path ?e1 [1, 0, 1])) [[0, 0, 0, 0], [1, 1]])
         [0, 0, 1]) =
     Inr ([0, 0, 0, 0, 0, 1], 0, True, \<lparr>overloaded_links = 0\<rparr>)"
    by code_simp
  have D: "after_steps bfs_shortest_path triangle_env [[1, 1, 1], [1, 0, 1], [0, 0, 0, 0], [1, 1]] =
      after_steps bfs_shortest_path (snd (step bfs_shortest_path ?e1 [1, 0, 1])) [[0, 0, 0, 0], [1, 1]]"
    by (simp add: after_steps_def)
  have F: "current_step triangle_env = 0" by code_simp
  from step_counter_and_done [of bfs_shortest_path ?e1 demand_0_2 "[[0, 0, 0, 0], [1, 1]]" "[1, 0, 1]" "[0, 0, 1]" 0]
    A B C D F
  show ?thesis by (simp add: after_steps_counter step_counter)
qed

section \<open>Reward and overload count\<close>

lemma above_capacity_simps:
  "above_capacity (Some c) u = (c < u)" "above_capacity None u = False"
  by (simp_all add: above_capacity_def)

lemma count_from_eq:
  "count_from g us es i acc = Inr n \<Longrightarrow>
   n = acc + length (filter (\<lambda>k. above_capacity (capacity g (fst (es ! k)) (snd (es ! k)))
                                    (us ! (i + k))) [0..<length es])"
proof (induction es arbitrary: i acc)
  case Nil
  then show ?case by simp
next
  case (Cons l es)
  obtain u v where l: "l = (u, v)" by (cases l)
  from Cons.prems l obtain cap where cap: "capacity g u v = Some cap"
    and rec: "count_from g us es (i + 1) (if us ! i > cap then acc + 1 else acc) = Inr n"
    by (auto split: option.splits if_splits)
  have up: "[0..<length (l # es)] = 0 # map Suc [0..<length es]"
    by (simp add: upt_conv_Cons map_Suc_upt del: upt_Suc)
  show ?case
    unfolding up using Cons.IH [OF rec] cap l
    by (simp add: filter_map comp_def above_capacity_simps)
qed

lemma count_overloaded_links_eq:
  assumes "count_overloaded_links e = Inr n"
  shows "n = overload_count e"
proof -
  have "link_overloaded e =
        (\<lambda>k. above_capacity (capacity (graph_nx e) (fst (edge_list e ! k)) (snd (edge_list e ! k)))
               (usage e ! (0 + k)))"
    by (rule ext) (simp add: link_overloaded_def link_capacity_def case_prod_beta)
  then show ?thesis
    using count_from_eq [of "graph_nx e" "usage e" "edge_list e" 0 0 n] assms
    unfolding count_overloaded_links_def overload_count_def by simp
qed

lemma step_reward:
  assumes "step sp e a = (Inr (obs, r, d, i), e')"
  shows "r = - int (overload_count e') \<and> overloaded_links i = overload_count e'"
proof -
  from assms have "snd (step sp e a) = e'" by simp
  with assms show ?thesis
    by (auto simp add: step_def Let_def count_overloaded_links_eq
        split: sum.splits prod.splits option.splits)
qed

section \<open>The routing computation is a function of topology, link state and demands\<close>

text \<open>
  Claim C7. The routing computation is deterministic and stateless per call: two
  environments that agree on the topology (graph, link list, numbers of nodes and
  links), on the link-state vector and on the demand matrix get the same outcome and
  the same usage vector from it, whatever usage vector (or step counter) each held
  before; and running it a second time on its own result gives the same usage vector
  again. (\<open>nx.shortest_path\<close> enters as the function \<open>sp\<close> of the graph and the end
  points.)
\<close>

theorem routing_deterministic_and_stateless:
  assumes "graph_nx e2 = graph_nx e1" and "edge_list e2 = edge_list e1"
    and "num_nodes e2 = num_nodes e1" and "num_edges e2 = num_edges e1"
    and "link_open e2 = link_open e1" and "traffic e2 = traffic e1"
  shows "fst (update_link_usage sp e2) = fst (update_link_usage sp e1) \<and>
         usage (snd (update_link_usage sp e2)) = usage (snd (update_link_usage sp e1)) \<and>
         usage (snd (update_link_usage sp (snd (update_link_usage sp e1)))) =
           usage (snd (update_link_usage sp e1))"
proof -
  have same: "fst (update_link_usage sp b) = fst (update_link_usage sp a) \<and>
      usage (snd (update_link_usage sp b)) = usage (snd (update_link_usage sp a))"
    if "graph_nx b = graph_nx a" "edge_list b = edge_list a" "num_nodes b = num_nodes a"
      "num_edges b = num_edges a" "link_open b = link_open a" "traffic b = traffic a" for a b
    using that
    by (simp add: update_link_usage_def Let_def split: sum.splits prod.splits option.splits)
  let ?e' = "snd (update_link_usage sp e1)"
  have fr: "?e' = e1\<lparr>usage := usage ?e'\<rparr>" by (rule update_usage_frame)
  have "graph_nx ?e' = graph_nx e1" "edge_list ?e' = edge_list e1" "num_nodes ?e' = num_nodes e1"
      "num_edges ?e' = num_edges e1" "link_open ?e' = link_open e1" "traffic ?e' = traffic e1"
    by (subst fr, simp)+
  from same [OF this] same [OF assms] show ?thesis by simp
qed

theorem routing_deterministic_and_stateless_witness:
  "usage triangle_env = [0, 15, 0] \<and>
   usage (snd (update_link_usage bfs_shortest_path (triangle_env\<lparr>usage := [7, 8, 9], current_step := 5\<rparr>)))
     = [0, 15, 0] \<and>
   usage (snd (update_link_usage bfs_shortest_path triangle_env)) = [0, 15, 0]"
proof -
  have A: "usage (snd (update_link_usage bfs_shortest_path triangle_env)) = [0, 15, 0]"
    by code_simp
  have B: "usage triangle_env = [0, 15, 0]"
    by code_simp
  from routing_deterministic_and_stateless
    [of "triangle_env\<lparr>usage := [7, 8, 9], current_step := 5\<rparr>" triangle_env bfs_shortest_path] A B
  show ?thesis by simp
qed

section \<open>The observation vector\<close>

lemma observe_eq:
  "observe g us lo es i acc = Inr obs \<Longrightarrow>
   (es \<noteq> [] \<longrightarrow> i + length es \<le> length lo) \<and>
   obs = acc @ concat (map (\<lambda>k. [code_ratio (capacity g (fst (es ! k)) (snd (es ! k))) (us ! (i + k)),
                                    of_int (lo ! (i + k))]) [0..<length es])"
proof (induction es arbitrary: i acc)
  case Nil
  then show ?case by simp
next
  case (Cons l es)
  obtain u v where l: "l = (u, v)" by (cases l)
  from Cons.prems l obtain cap where cap: "capacity g u v = Some cap"
    and i: "i < length lo"
    and rec: "observe g us lo es (i + 1)
       (acc @ [if cap > 0 then of_int (us ! i) / of_int cap else 0, of_int (lo ! i)]) = Inr obs"
    by (auto simp add: Let_def split: option.splits if_splits)
  have up: "[0..<length (l # es)] = 0 # map Suc [0..<length es]"
    by (simp add: upt_conv_Cons map_Suc_upt del: upt_Suc)
  have hd: "code_ratio (Some cap) x = (if cap > 0 then of_int x / of_int cap else 0)" for x
    by (simp add: code_ratio_def)
  show ?case
    unfolding up using Cons.IH [OF rec] cap l i
    by (cases "es = []") (simp_all add: comp_def hd)
qed

lemma concat_pairs_length: "length (concat (map (\<lambda>k. [f k, h k]) [0..<n])) = 2 * n"
  by (induction n) simp_all

lemma concat_pairs_nth:
  "k < n \<Longrightarrow> concat (map (\<lambda>k. [f k, h k]) [0..<n]) ! (2 * k) = f k \<and>
             concat (map (\<lambda>k. [f k, h k]) [0..<n]) ! (2 * k + 1) = h k"
proof (induction n)
  case 0
  then show ?case by simp
next
  case (Suc n)
  show ?case
  proof (cases "k < n")
    case True
    with Suc.IH show ?thesis
      by (simp add: nth_append concat_pairs_length)
  next
    case False
    with Suc.prems have "k = n" by simp
    then show ?thesis
      by (simp add: nth_append concat_pairs_length)
  qed
qed

lemma get_observation_layout:
  assumes obs: "get_observation e = Inr obs"
    and caps: "caps_nonneg e"
    and flags: "set (link_open e) \<subseteq> {0, 1}"
  shows "obs_layout e obs"
proof -
  let ?f = "\<lambda>k. code_ratio (capacity (graph_nx e) (fst (edge_list e ! k)) (snd (edge_list e ! k)))
                   (usage e ! (0 + k))"
  let ?h = "\<lambda>k. (of_int (link_open e ! (0 + k)) :: rat)"
  from observe_eq [OF obs [unfolded get_observation_def]]
  have len: "edge_list e \<noteq> [] \<longrightarrow> length (edge_list e) \<le> length (link_open e)"
    and eq: "obs = concat (map (\<lambda>k. [?f k, ?h k]) [0..<length (edge_list e)])"
    by simp_all
  have "obs ! (2 * k) = usage_ratio e k \<and> obs ! (2 * k + 1) = open_flag e k"
    if k: "k < length (edge_list e)" for k
  proof -
    from concat_pairs_nth [OF k, of ?f ?h] eq
    have 1: "obs ! (2 * k) = ?f k" and 2: "obs ! (2 * k + 1) = ?h k" by simp_all
    from caps k have "case link_capacity e k of None \<Rightarrow> True | Some cap \<Rightarrow> 0 \<le> cap"
      by (simp add: caps_nonneg_def)
    then have "?f k = usage_ratio e k"
      by (auto simp add: usage_ratio_def ratio_of_def code_ratio_def link_capacity_def
          case_prod_beta split: option.splits)
    moreover from k len have "k < length (link_open e)" by auto
    with flags have "link_open e ! k \<in> {0, 1}"
      using nth_mem by blast
    then have "?h k = open_flag e k"
      by (auto simp add: open_flag_def)
    ultimately show ?thesis using 1 2 by simp
  qed
  then show ?thesis
    unfolding obs_layout_def using eq by (simp add: concat_pairs_length)
qed

lemma caps_nonneg_cong:
  "graph_nx e' = graph_nx e \<Longrightarrow> edge_list e' = edge_list e \<Longrightarrow> caps_nonneg e' = caps_nonneg e"
  by (simp add: caps_nonneg_def link_capacity_def)

lemma reset_returns:
  assumes "reset sp e draw = (Inr obs, e')"
  shows "get_observation e' = Inr obs \<and> link_open e' = replicate (num_edges e) 1 \<and>
         graph_nx e' = graph_nx e \<and> edge_list e' = edge_list e"
proof -
  let ?e4 = "e\<lparr>current_step := 0,
           traffic := Some (fold (\<lambda>i t. t(i := (t i)(i := 0))) [0..<nat (num_nodes e)] draw),
           usage := replicate (num_edges e) 0,
           link_open := replicate (num_edges e) 1\<rparr>"
  from assms have n: "\<not> num_nodes e < 0"
    by (auto simp add: reset_def Let_def)
  from assms have e': "e' = snd (reset sp e draw)" by simp
  with n have s: "e' = snd (update_link_usage sp ?e4)"
    by (simp add: reset_state)
  have fr: "e' = ?e4\<lparr>usage := usage e'\<rparr>"
    by (subst s, subst update_usage_frame) (simp add: s)
  from assms n s have "get_observation e' = Inr obs"
    by (auto simp add: reset_def Let_def split: sum.splits prod.splits option.splits)
  moreover have "link_open e' = replicate (num_edges e) 1" "graph_nx e' = graph_nx e"
    "edge_list e' = edge_list e"
    by (subst fr, simp)+
  ultimately show ?thesis by simp
qed

lemma step_returns:
  assumes "step sp e a = (Inr (obs, r, d, i), e')"
  shows "get_observation e' = Inr obs \<and> link_open e' = a \<and>
         graph_nx e' = graph_nx e \<and> edge_list e' = edge_list e"
proof -
  from assms have e': "e' = snd (step sp e a)" by simp
  have fr: "e' = e\<lparr>current_step := current_step e + 1, link_open := a, usage := usage e'\<rparr>"
    by (subst e', subst step_frame) (simp add: e')
  from assms have "get_observation e' = Inr obs"
    by (auto simp add: step_def Let_def split: sum.splits prod.splits option.splits)
  moreover have "link_open e' = a" "graph_nx e' = graph_nx e" "edge_list e' = edge_list e"
    by (subst fr, simp)+
  ultimately show ?thesis by simp
qed

text \<open>
  Claim C8. Every observation that \<open>reset\<close> or \<open>step\<close> returns has exactly two entries
  per link, in the order of the link list: at position \<open>2 i\<close> the usage of link \<open>i\<close>
  divided by its capacity (\<open>0\<close> when the capacity is \<open>0\<close>), at position \<open>2 i + 1\<close> its
  open flag, \<open>1\<close> for an open and \<open>0\<close> for a closed link. The capacities are taken
  non-negative, as the data model of the specification has them, and the action of
  \<open>step\<close> binary, as the action space has it.
\<close>

theorem observation_layout:
  assumes "caps_nonneg e"
  shows "(reset sp e draw = (Inr obs, e') \<longrightarrow> obs_layout e' obs) \<and>
         (step sp e a = (Inr (obs, r, d, i), e') \<longrightarrow> set a \<subseteq> {0, 1} \<longrightarrow> obs_layout e' obs)"
proof (intro conjI impI)
  assume "reset sp e draw = (Inr obs, e')"
  from reset_returns [OF this]
  have o: "get_observation e' = Inr obs" and l: "link_open e' = replicate (num_edges e) 1"
    and g: "graph_nx e' = graph_nx e" "edge_list e' = edge_list e" by simp_all
  from assms have "caps_nonneg e'" by (simp add: caps_nonneg_cong [OF g])
  moreover have "set (link_open e') \<subseteq> {0, 1}" by (auto simp add: l)
  ultimately show "obs_layout e' obs" using o by (intro get_observation_layout)
next
  assume "step sp e a = (Inr (obs, r, d, i), e')" and a: "set a \<subseteq> {0, 1}"
  from step_returns [OF this(1)]
  have o: "get_observation e' = Inr obs" and l: "link_open e' = a"
    and g: "graph_nx e' = graph_nx e" "edge_list e' = edge_list e" by simp_all
  from assms have "caps_nonneg e'" by (simp add: caps_nonneg_cong [OF g])
  moreover from a have "set (link_open e') \<subseteq> {0, 1}" by (simp add: l)
  ultimately show "obs_layout e' obs" using o by (intro get_observation_layout)
qed

theorem observation_layout_witness:
  "caps_nonneg triangle_env \<and>
   fst (reset bfs_shortest_path triangle_env demand_0_2) = Inr [0, 1, 3 / 2, 1, 0, 1] \<and>
   obs_layout (snd (reset bfs_shortest_path triangle_env demand_0_2)) [0, 1, 3 / 2, 1, 0, 1] \<and>
   fst (step bfs_shortest_path triangle_env [1, 0, 1]) =
     Inr ([3 / 2, 1, 0, 0, 3 / 2, 1], - 2, False, \<lparr>overloaded_links = 2\<rparr>) \<and>
   obs_layout (snd (step bfs_shortest_path triangle_env [1, 0, 1])) [3 / 2, 1, 0, 0, 3 / 2, 1]"
proof -
  have C: "caps_nonneg triangle_env"
    by code_simp
  have A: "fst (reset bfs_shortest_path triangle_env demand_0_2) = Inr [0, 1, 3 / 2, 1, 0, 1]"
    by code_simp
  have B: "fst (step bfs_shortest_path triangle_env [1, 0, 1]) =
     Inr ([3 / 2, 1, 0, 0, 3 / 2, 1], - 2, False, \<lparr>overloaded_links = 2\<rparr>)"
    by code_simp
  from observation_layout [OF C, where sp = bfs_shortest_path and draw = demand_0_2
      and obs = "[0, 1, 3 / 2, 1, 0, 1]"
      and e' = "snd (reset bfs_shortest_path triangle_env demand_0_2)"]
    observation_layout [OF C, where sp = bfs_shortest_path and a = "[1, 0, 1]"
      and obs = "[3 / 2, 1, 0, 0, 3 / 2, 1]" and r = "- 2" and d = False
      and i = "\<lparr>overloaded_links = 2\<rparr>"
      and e' = "snd (step bfs_shortest_path triangle_env [1, 0, 1])"]
    A B C
  show ?thesis by (simp add: prod_eq_iff)
qed

section \<open>Actions of the wrong length\<close>

lemma open_subgraph_short:
  "length lo < i + length es \<Longrightarrow> i \<le> length lo \<Longrightarrow>
   \<forall>l \<in> set es. capacity g (fst l) (snd l) \<noteq> None \<Longrightarrow>
   open_subgraph g lo es i G = Inl IndexError"
proof (induction es arbitrary: i G)
  case Nil
  then show ?case by simp
next
  case (Cons l es)
  obtain u v where l: "l = (u, v)" by (cases l)
  from Cons.prems(3) l obtain c where c: "capacity g u v = Some c" by auto
  show ?case
  proof (cases "i < length lo")
    case False
    with l show ?thesis by simp
  next
    case True
    from Cons.prems True have "length lo < (i + 1) + length es" "i + 1 \<le> length lo" by simp_all
    from Cons.IH [OF this] Cons.prems(3) True l c show ?thesis by simp
  qed
qed

lemma open_subgraph_take:
  "i + length es \<le> length lo \<Longrightarrow>
   open_subgraph g (take (i + length es) lo) es i G = open_subgraph g lo es i G"
proof (induction es arbitrary: i G)
  case Nil
  then show ?case by simp
next
  case (Cons l es)
  obtain u v where l: "l = (u, v)" by (cases l)
  from Cons.prems have i: "i < length lo" and n: "(i + 1) + length es \<le> length lo" by simp_all
  have t: "take (i + length (l # es)) lo = take ((i + 1) + length es) lo" by simp
  show ?case
    unfolding t using Cons.IH [OF n] i l
    by (simp split: option.splits)
qed

lemma observe_take:
  "i + length es \<le> length lo \<Longrightarrow>
   observe g us (take (i + length es) lo) es i acc = observe g us lo es i acc"
proof (induction es arbitrary: i acc)
  case Nil
  then show ?case by simp
next
  case (Cons l es)
  obtain u v where l: "l = (u, v)" by (cases l)
  from Cons.prems have i: "i < length lo" and n: "(i + 1) + length es \<le> length lo" by simp_all
  have t: "take (i + length (l # es)) lo = take ((i + 1) + length es) lo" by simp
  show ?case
    unfolding t using Cons.IH [OF n] i l
    by (simp add: Let_def split: option.splits)
qed

lemma update_usage_take:
  assumes "length (edge_list e) \<le> length a"
  shows "update_link_usage sp (e\<lparr>link_open := a\<rparr>) =
     (fst (update_link_usage sp (e\<lparr>link_open := take (length (edge_list e)) a\<rparr>)),
      (snd (update_link_usage sp (e\<lparr>link_open := take (length (edge_list e)) a\<rparr>)))\<lparr>link_open := a\<rparr>)"
  using open_subgraph_take [of 0 "edge_list e" a "graph_nx e"] assms
  by (simp add: update_link_usage_def Let_def split: sum.splits prod.splits option.splits)

lemma step_long_action:
  assumes "length (edge_list e) \<le> length a"
  shows "fst (step sp e a) = fst (step sp e (take (length (edge_list e)) a)) \<and>
         usage (snd (step sp e a)) = usage (snd (step sp e (take (length (edge_list e)) a)))"
proof -
  let ?n = "length (edge_list e)"
  let ?U = "update_link_usage sp (e\<lparr>link_open := take ?n a\<rparr>)"
  have fr: "snd ?U = e\<lparr>link_open := take ?n a, usage := usage (snd ?U)\<rparr>"
    by (subst update_usage_frame) simp
  have el: "edge_list (snd ?U) = edge_list e" and lo: "link_open (snd ?U) = take ?n a"
    by (subst fr, simp)+
  have c: "count_overloaded_links ((snd ?U)\<lparr>link_open := a\<rparr>) = count_overloaded_links (snd ?U)"
    by (simp add: count_overloaded_links_def)
  have "get_observation ((snd ?U)\<lparr>link_open := a\<rparr>) =
        observe (graph_nx (snd ?U)) (usage (snd ?U)) (take (0 + ?n) a) (edge_list e) 0 []"
    using observe_take [of 0 "edge_list e" a] assms by (simp add: get_observation_def el)
  then have o: "get_observation ((snd ?U)\<lparr>link_open := a\<rparr>) = get_observation (snd ?U)"
    by (simp add: get_observation_def el lo)
  have 1: "fst (step sp e a) = fst (step sp e (take ?n a))"
    unfolding step_unfold update_usage_take [OF assms] step_outcome_def
    by (simp add: c o cong: option.case_cong sum.case_cong)
  have "usage (snd (step sp e a)) =
        usage (snd (update_link_usage sp (e\<lparr>current_step := current_step e + 1, link_open := a\<rparr>)))"
    by (simp add: step_state)
  also have "\<dots> = usage (snd (update_link_usage sp (e\<lparr>link_open := a\<rparr>)))"
    by (simp add: update_usage_counter_free)
  also have "\<dots> = usage (snd ?U)"
    by (simp add: update_usage_take [OF assms])
  also have "\<dots> = usage (snd (update_link_usage sp
        (e\<lparr>current_step := current_step e + 1, link_open := take ?n a\<rparr>)))"
    by (simp add: update_usage_counter_free)
  also have "\<dots> = usage (snd (step sp e (take ?n a)))"
    by (simp add: step_state)
  finally show ?thesis using 1 by simp
qed

lemma step_short_action:
  assumes "wf_env e" and "length a < length (edge_list e)"
  shows "step sp e a = (Inl IndexError,
           e\<lparr>current_step := current_step e + 1, link_open := a,
             usage := replicate (num_edges e) 0\<rparr>)"
proof -
  from assms(1) have "\<forall>l \<in> set (edge_list e). capacity (graph_nx e) (fst l) (snd l) \<noteq> None"
    by (simp add: wf_env_def)
  from open_subgraph_short [OF _ _ this, of a 0] assms(2)
  have "open_subgraph (graph_nx e) a (edge_list e) 0 G = Inl IndexError" for G
    by simp
  then show ?thesis
    by (simp add: step_def update_link_usage_def Let_def)
qed

text \<open>
  Claim C2, as the code has it. \<open>step\<close> does not compare the length of the action with
  the number of links. An action that is too short makes the call fail with the
  \<open>IndexError\<close> of the read \<open>link_open[i]\<close> in the routing computation, after the step
  counter has been incremented, the link-state vector replaced by the action and the
  usage vector set to zeros. An action that is too long is not refused: the call
  returns, or raises, what it does for the action cut to the number of links, and
  leaves the same usage vector.
\<close>

theorem step_without_length_check:
  assumes "wf_env e"
  shows "(length a < length (edge_list e) \<longrightarrow>
            step sp e a = (Inl IndexError,
              e\<lparr>current_step := current_step e + 1, link_open := a,
                usage := replicate (num_edges e) 0\<rparr>)) \<and>
         (length (edge_list e) \<le> length a \<longrightarrow>
            fst (step sp e a) = fst (step sp e (take (length (edge_list e)) a)) \<and>
            usage (snd (step sp e a)) = usage (snd (step sp e (take (length (edge_list e)) a))))"
  using step_short_action [OF assms] step_long_action by blast

theorem step_without_length_check_witness:
  "wf_env triangle_env \<and>
   step bfs_shortest_path triangle_env [1, 0] =
     (Inl IndexError, triangle_env\<lparr>current_step := 1, link_open := [1, 0], usage := [0, 0, 0]\<rparr>) \<and>
   fst (step bfs_shortest_path triangle_env [1, 0, 1, 0, 0]) =
     Inr ([3 / 2, 1, 0, 0, 3 / 2, 1], - 2, False, \<lparr>overloaded_links = 2\<rparr>)"
proof -
  have W: "wf_env triangle_env" by code_simp
  have L: "length (edge_list triangle_env) = 3" "num_edges triangle_env = 3"
    "current_step triangle_env = 0" by code_simp+
  have T: "fst (step bfs_shortest_path triangle_env [1, 0, 1]) =
     Inr ([3 / 2, 1, 0, 0, 3 / 2, 1], - 2, False, \<lparr>overloaded_links = 2\<rparr>)"
    by code_simp
  from step_without_length_check [OF W, of "[1, 0]" bfs_shortest_path]
       step_without_length_check [OF W, of "[1, 0, 1, 0, 0]" bfs_shortest_path] W L T
  show ?thesis by (simp add: numeral_3_eq_3)
qed

text \<open>
  The claim as the specification states it (an \<open>InvalidActionError\<close> at the start of
  \<open>step\<close>, the state untouched) does not hold: with three links, an action of four
  flags is accepted, and an action of two flags raises \<open>IndexError\<close> after the step
  counter, the link-state vector and the usage vector have changed.
\<close>

theorem wrong_length_action_counterexample:
  "length [1, 1, 1, 0 :: int] \<noteq> length (edge_list triangle_env) \<and>
   fst (step bfs_shortest_path triangle_env [1, 1, 1, 0]) =
     Inr ([0, 1, 3 / 2, 1, 0, 1], - 1, False, \<lparr>overloaded_links = 1\<rparr>) \<and>
   length [1, 1 :: int] \<noteq> length (edge_list triangle_env) \<and>
   fst (step bfs_shortest_path triangle_env [1, 1]) = Inl IndexError \<and>
   current_step triangle_env = 0 \<and>
   current_step (snd (step bfs_shortest_path triangle_env [1, 1])) = 1 \<and>
   link_open triangle_env = [1, 1, 1] \<and>
   link_open (snd (step bfs_shortest_path triangle_env [1, 1])) = [1, 1] \<and>
   usage triangle_env = [0, 15, 0] \<and>
   usage (snd (step bfs_shortest_path triangle_env [1, 1])) = [0, 0, 0]"
  by code_simp

section \<open>Graph operations\<close>

lemma add_node_nodes: "set (g_nodes (add_node g n)) = insert n (set (g_nodes g))"
  by (auto simp add: add_node_def)

lemma add_node_adj: "g_adj (add_node g n) = g_adj g"
  by (simp add: add_node_def)

lemma add_node_has_edge: "has_edge (add_node g n) a b = has_edge g a b"
  by (simp add: has_edge_def add_node_adj)

lemma add_edge_nodes: "set (g_nodes (add_edge g u v c)) = insert u (insert v (set (g_nodes g)))"
  by (auto simp add: add_edge_def Let_def add_node_nodes)

lemma add_edge_has_edge:
  "has_edge (add_edge g u v c) a b = (has_edge g a b \<or> (a = u \<and> b = v) \<or> (a = v \<and> b = u))"
  by (auto simp add: has_edge_def add_edge_def Let_def add_node_adj dom_update)

lemma fold_add_node_nodes:
  "set (g_nodes (fold (\<lambda>k g. add_node g k) ns g)) = set ns \<union> set (g_nodes g)"
  by (induction ns arbitrary: g) (auto simp add: add_node_nodes)

lemma fold_add_node_adj: "g_adj (fold (\<lambda>k g. add_node g k) ns g) = g_adj g"
  by (induction ns arbitrary: g) (auto simp add: add_node_adj)

section \<open>Breadth-first search meets the contract of the path finder\<close>

lemma is_walk_append:
  "is_walk g (xs @ [v]) = (is_walk g xs \<and> (xs = [] \<or> has_edge g (last xs) v))"
  by (induction g xs rule: is_walk.induct) auto

lemma bfs_extend_walks:
  assumes "bfs_extend g fr vis = (fr', vis')"
    and "\<forall>p \<in> set fr. p \<noteq> [] \<and> is_walk g (rev p)"
  shows "\<forall>p \<in> set fr'. p \<noteq> [] \<and> is_walk g (rev p)"
  using assms
proof (induction fr arbitrary: vis fr' vis')
  case Nil
  then show ?case by simp
next
  case (Cons p ps)
  let ?new = "filter (\<lambda>v. v \<notin> set vis) (map fst (g_adj g (hd p)))"
  obtain rest vis2 where r: "bfs_extend g ps (vis @ ?new) = (rest, vis2)"
    by (cases "bfs_extend g ps (vis @ ?new)")
  with Cons.prems(1) have fr': "fr' = map (\<lambda>v. v # p) ?new @ rest"
    by (simp add: Let_def)
  from Cons.IH [OF r] Cons.prems(2) have rest: "\<forall>q \<in> set rest. q \<noteq> [] \<and> is_walk g (rev q)"
    by simp
  from Cons.prems(2) have p: "p \<noteq> []" "is_walk g (rev p)" by simp_all
  have new: "q \<noteq> [] \<and> is_walk g (rev q)" if "q \<in> set (map (\<lambda>v. v # p) ?new)" for q
  proof -
    from that obtain v where q: "q = v # p" and "v \<in> set ?new" by auto
    then have "has_edge g (hd p) v" by (auto simp add: has_edge_def)
    with p q show ?thesis by (simp add: is_walk_append last_rev)
  qed
  show ?case
  proof
    fix q assume "q \<in> set fr'"
    then have "q \<in> set (map (\<lambda>v. v # p) ?new) \<or> q \<in> set rest"
      unfolding fr' by simp
    with new rest show "q \<noteq> [] \<and> is_walk g (rev q)" by blast
  qed
qed

lemma bfs_walk:
  "bfs g t k fr vis = Some p \<Longrightarrow> \<forall>q \<in> set fr. q \<noteq> [] \<and> is_walk g (rev q) \<Longrightarrow> is_walk g p"
proof (induction k arbitrary: fr vis)
  case 0
  then show ?case by simp
next
  case (Suc k)
  show ?case
  proof (cases "find (\<lambda>q. hd q = t) fr")
    case (Some q)
    then have "q \<in> set fr" by (auto simp add: find_Some_iff)
    with Suc.prems Some show ?thesis by auto
  next
    case None
    obtain fr' vis' where e: "bfs_extend g fr vis = (fr', vis')"
      by (cases "bfs_extend g fr vis")
    with Suc.prems(1) None have "bfs g t k fr' vis' = Some p" by simp
    from Suc.IH [OF this bfs_extend_walks [OF e Suc.prems(2)]] show ?thesis .
  qed
qed

lemma bfs_shortest_path_sound: "sp_sound bfs_shortest_path"
  unfolding sp_sound_def
proof (intro allI impI)
  fix G s t p
  assume "bfs_shortest_path G s t = Inr p"
  then have "bfs G t (Suc (length (g_nodes G))) [[s]] [s] = Some p"
    by (auto simp add: bfs_shortest_path_def split: if_splits option.splits)
  from bfs_walk [OF this] show "is_walk G p" by simp
qed

lemma bfs_shortest_path_total: "sp_total bfs_shortest_path"
  by (auto simp add: sp_total_def bfs_shortest_path_def split: if_splits option.splits)

section \<open>Which links the routing computation touches\<close>

lemma edge_index_Some:
  "edge_index el a b = Some k \<Longrightarrow> k < length el \<and> (el ! k = (a, b) \<or> el ! k = (b, a))"
proof (induction el arbitrary: k)
  case Nil
  then show ?case by simp
next
  case (Cons l el)
  obtain x y where l: "l = (x, y)" by (cases l)
  show ?case
  proof (cases "(x = a \<and> y = b) \<or> (x = b \<and> y = a)")
    case True
    with Cons.prems l show ?thesis by auto
  next
    case False
    with Cons.prems l obtain k' where "edge_index el a b = Some k'" "k = Suc k'"
      by auto
    with Cons.IH show ?thesis by simp
  qed
qed

lemma open_subgraph_edges:
  "open_subgraph g lo es i G = Inr G' \<Longrightarrow> has_edge G' a b \<Longrightarrow>
   has_edge G a b \<or> (\<exists>k < length es. lo ! (i + k) = 1 \<and> (es ! k = (a, b) \<or> es ! k = (b, a)))"
proof (induction es arbitrary: i G)
  case Nil
  then show ?case by simp
next
  case (Cons l es)
  obtain u v where l: "l = (u, v)" by (cases l)
  show ?case
  proof (cases "lo ! i = 1")
    case True
    with Cons.prems(1) l obtain c where
      rec: "open_subgraph g lo es (i + 1) (add_edge G u v c) = Inr G'"
      by (auto split: if_splits option.splits)
    from Cons.IH [OF rec Cons.prems(2)] show ?thesis
    proof
      assume "has_edge (add_edge G u v c) a b"
      with True l show ?thesis by (auto simp add: add_edge_has_edge)
    next
      assume "\<exists>k<length es. lo ! (i + 1 + k) = 1 \<and> (es ! k = (a, b) \<or> es ! k = (b, a))"
      then obtain k where "k < length es" "lo ! (i + Suc k) = 1" "es ! k = (a, b) \<or> es ! k = (b, a)"
        by auto
      then have "Suc k < length (l # es) \<and> lo ! (i + Suc k) = 1 \<and>
                 ((l # es) ! Suc k = (a, b) \<or> (l # es) ! Suc k = (b, a))" by simp
      then show ?thesis by blast
    qed
  next
    case False
    with Cons.prems(1) l have rec: "open_subgraph g lo es (i + 1) G = Inr G'"
      by (auto split: if_splits option.splits)
    from Cons.IH [OF rec Cons.prems(2)] show ?thesis
    proof
      assume "has_edge G a b"
      then show ?thesis by simp
    next
      assume "\<exists>k<length es. lo ! (i + 1 + k) = 1 \<and> (es ! k = (a, b) \<or> es ! k = (b, a))"
      then obtain k where "k < length es" "lo ! (i + Suc k) = 1" "es ! k = (a, b) \<or> es ! k = (b, a)"
        by auto
      then have "Suc k < length (l # es) \<and> lo ! (i + Suc k) = 1 \<and>
                 ((l # es) ! Suc k = (a, b) \<or> (l # es) ! Suc k = (b, a))" by simp
      then show ?thesis by blast
    qed
  qed
qed

lemma open_subgraph_nodes:
  "open_subgraph g lo es i G = Inr G' \<Longrightarrow> set (g_nodes G) \<subseteq> set (g_nodes G')"
proof (induction es arbitrary: i G)
  case Nil
  then show ?case by simp
next
  case (Cons l es)
  obtain u v where l: "l = (u, v)" by (cases l)
  show ?case
  proof (cases "lo ! i = 1")
    case True
    with Cons.prems(1) l obtain c where
      rec: "open_subgraph g lo es (i + 1) (add_edge G u v c) = Inr G'"
      by (auto split: if_splits option.splits)
    from Cons.IH [OF rec] show ?thesis by (auto simp add: add_edge_nodes)
  next
    case False
    with Cons.prems(1) l have rec: "open_subgraph g lo es (i + 1) G = Inr G'"
      by (auto split: if_splits option.splits)
    from Cons.IH [OF rec] show ?thesis .
  qed
qed

lemma add_path_usage_length: "length (snd (add_path_usage el d p us)) = length us"
  by (induction el d p us rule: add_path_usage.induct) (auto split: option.splits)

lemma add_path_usage_untouched:
  "is_walk G p \<Longrightarrow> \<forall>a b. has_edge G a b \<longrightarrow> edge_index el a b \<noteq> Some j \<Longrightarrow>
   snd (add_path_usage el d p us) ! j = us ! j"
proof (induction el d p us rule: add_path_usage.induct)
  case (1 el d u v rest us)
  from "1.prems" have e: "has_edge G u v" and w: "is_walk G (v # rest)" by simp_all
  show ?case
  proof (cases "edge_index el u v")
    case None
    with "1.IH"(1) [OF None w "1.prems"(2)] show ?thesis by simp
  next
    case (Some k)
    with e "1.prems"(2) have kj: "k \<noteq> j" by auto
    show ?thesis
    proof (cases "k < length us")
      case True
      with "1.IH"(2) [OF Some _ w "1.prems"(2)] Some kj show ?thesis by simp
    next
      case False
      with Some show ?thesis by simp
    qed
  qed
qed simp_all

lemma route_demands_length: "length (snd (route_demands sp G el tr ps us)) = length us"
proof (induction ps arbitrary: us)
  case Nil
  then show ?case by simp
next
  case (Cons q ps)
  obtain i j where q: "q = (i, j)" by (cases q)
  show ?case
    using Cons.IH add_path_usage_length [of el _ _ us] unfolding q
    by (auto split: option.splits sum.splits prod.splits)
      (metis add_path_usage_length snd_conv)+
qed

lemma route_demands_untouched:
  assumes "sp_sound sp" and "\<forall>a b. has_edge G a b \<longrightarrow> edge_index el a b \<noteq> Some j"
  shows "snd (route_demands sp G el tr ps us) ! j = us ! j"
proof (induction ps arbitrary: us)
  case Nil
  then show ?case by simp
next
  case (Cons q ps)
  obtain i k where q: "q = (i, k)" by (cases q)
  have path: "snd (add_path_usage el d p us) ! j = us ! j" if "sp G i k = Inr p" for p d
    using add_path_usage_untouched [OF _ assms(2)] assms(1) that
    by (auto simp add: sp_sound_def)
  show ?case
    unfolding q using Cons.IH path
    by (auto split: option.splits sum.splits prod.splits) (metis snd_conv)+
qed

lemma link_key_sym: "link_key (a, b) = link_key (b, a)"
  by (simp add: link_key_def min.commute max.commute)

lemma fresh_graph_no_edge:
  "\<not> has_edge (fold (\<lambda>k g. add_node g k) ns empty_graph) a b"
  by (simp add: has_edge_def fold_add_node_adj empty_graph_def)

lemma update_usage_length:
  "length (usage (snd (update_link_usage sp e))) = num_edges e"
  by (simp add: update_link_usage_def Let_def route_demands_length
      split: sum.splits prod.splits option.splits)
     (metis route_demands_length length_replicate snd_conv)

lemma update_usage_closed:
  assumes wf: "wf_env e" and sp: "sp_sound sp"
    and j: "j < length (edge_list e)" "j < length (link_open e)" "link_open e ! j \<noteq> 1"
  shows "usage (snd (update_link_usage sp e)) ! j = 0"
proof -
  let ?G0 = "fold (\<lambda>k g. add_node g k) (g_nodes (graph_nx e)) empty_graph"
  from wf j have n: "j < num_edges e" by (simp add: wf_env_def)
  from wf have d: "distinct (map link_key (edge_list e))" by (simp add: wf_env_def)
  show ?thesis
  proof (cases "open_subgraph (graph_nx e) (link_open e) (edge_list e) 0 ?G0")
    case (Inl err)
    with n show ?thesis by (simp add: update_link_usage_def Let_def)
  next
    case (Inr G)
    have no: "edge_index (edge_list e) a b \<noteq> Some j" if h: "has_edge G a b" for a b
    proof
      assume "edge_index (edge_list e) a b = Some j"
      from edge_index_Some [OF this]
      have 1: "link_key (edge_list e ! j) = link_key (a, b)"
        using link_key_sym [of a b] by auto
      from open_subgraph_edges [OF Inr h] fresh_graph_no_edge
      obtain k where k: "k < length (edge_list e)" "link_open e ! k = 1"
        and "edge_list e ! k = (a, b) \<or> edge_list e ! k = (b, a)" by auto
      then have 2: "link_key (edge_list e ! k) = link_key (a, b)"
        using link_key_sym [of a b] by auto
      from 1 2 j(1) k(1) have "map link_key (edge_list e) ! j = map link_key (edge_list e) ! k"
        by simp
      with d j(1) k(1) have "j = k"
        using nth_eq_iff_index_eq [of "map link_key (edge_list e)" j k] by simp
      with k(2) j(3) show False by simp
    qed
    obtain r us where r: "route_demands sp G (edge_list e) (traffic e)
        (List.product [0..<nat (num_nodes e)] [0..<nat (num_nodes e)]) (replicate (num_edges e) 0) = (r, us)"
      by (cases "route_demands sp G (edge_list e) (traffic e)
        (List.product [0..<nat (num_nodes e)] [0..<nat (num_nodes e)]) (replicate (num_edges e) 0)")
    from route_demands_untouched [OF sp, of G "edge_list e" j "traffic e"
        "List.product [0..<nat (num_nodes e)] [0..<nat (num_nodes e)]" "replicate (num_edges e) 0"] no r n
    have "us ! j = 0" by simp
    with Inr r show ?thesis by (simp add: update_link_usage_def Let_def)
  qed
qed

lemma wf_env_cong:
  "graph_nx e' = graph_nx e \<Longrightarrow> edge_list e' = edge_list e \<Longrightarrow> num_edges e' = num_edges e \<Longrightarrow>
   num_nodes e' = num_nodes e \<Longrightarrow> wf_env e' = wf_env e"
  by (simp add: wf_env_def)

lemma update_closed_links_idle:
  assumes "wf_env e" and "sp_sound sp"
  shows "closed_links_idle (snd (update_link_usage sp e))"
proof -
  let ?e' = "snd (update_link_usage sp e)"
  have fr: "?e' = e\<lparr>usage := usage ?e'\<rparr>" by (rule update_usage_frame)
  have f: "edge_list ?e' = edge_list e" "link_open ?e' = link_open e"
    by (subst fr, simp)+
  show ?thesis
    unfolding closed_links_idle_def f
    using update_usage_closed [OF assms] by simp
qed

section \<open>Closed links carry no traffic\<close>

text \<open>
  Claim C10. After every routing recomputation, and so after every \<open>step\<close> and every
  \<open>reset\<close> that reaches it (\<open>reset\<close> raises before it for a negative \<open>num_nodes\<close>),
  each link whose open flag is not \<open>1\<close>, in particular each link whose flag is \<open>0\<close>,
  has usage exactly \<open>0\<close>. The environment is one that the constructor can have built
  (\<open>wf_env\<close>), and the paths that \<open>nx.shortest_path\<close> returns are walks of the graph it
  was given (\<open>sp_sound\<close>).
\<close>

theorem closed_links_carry_no_traffic:
  assumes "wf_env e" and "sp_sound sp"
  shows "closed_links_idle (snd (update_link_usage sp e)) \<and>
         closed_links_idle (snd (step sp e a)) \<and>
         (0 \<le> num_nodes e \<longrightarrow> closed_links_idle (snd (reset sp e draw)))"
proof -
  let ?es = "e\<lparr>current_step := current_step e + 1, link_open := a\<rparr>"
  let ?er = "e\<lparr>current_step := 0,
           traffic := Some (fold (\<lambda>i t. t(i := (t i)(i := 0))) [0..<nat (num_nodes e)] draw),
           usage := replicate (num_edges e) 0,
           link_open := replicate (num_edges e) 1\<rparr>"
  from assms(1) have "wf_env ?es" "wf_env ?er"
    by (simp_all add: wf_env_def)
  from update_closed_links_idle [OF this(1) assms(2)] update_closed_links_idle [OF this(2) assms(2)]
    update_closed_links_idle [OF assms]
  show ?thesis
    by (simp add: step_state reset_state)
qed

theorem closed_links_carry_no_traffic_witness:
  "wf_env triangle_env \<and> sp_sound bfs_shortest_path \<and>
   link_open (snd (step bfs_shortest_path triangle_env [1, 0, 1])) = [1, 0, 1] \<and>
   usage (snd (step bfs_shortest_path triangle_env [1, 0, 1])) = [15, 0, 15] \<and>
   closed_links_idle (snd (step bfs_shortest_path triangle_env [1, 0, 1])) \<and>
   closed_links_idle (snd (update_link_usage bfs_shortest_path triangle_env)) \<and>
   closed_links_idle (snd (reset bfs_shortest_path triangle_env demand_0_2))"
proof -
  have W: "wf_env triangle_env" by code_simp
  have N: "0 \<le> num_nodes triangle_env" by code_simp
  have U: "link_open (snd (step bfs_shortest_path triangle_env [1, 0, 1])) = [1, 0, 1]"
    "usage (snd (step bfs_shortest_path triangle_env [1, 0, 1])) = [15, 0, 15]"
    by code_simp+
  from closed_links_carry_no_traffic [OF W bfs_shortest_path_sound, of "[1, 0, 1]" demand_0_2]
    W N U bfs_shortest_path_sound
  show ?thesis by simp
qed

section \<open>When the methods return\<close>

text \<open>For an environment that satisfies the invariant of the constructor and has been
  reset, \<open>step\<close> returns for every action that has a flag for each link.\<close>

lemma count_from_total:
  "\<forall>l \<in> set es. capacity g (fst l) (snd l) \<noteq> None \<Longrightarrow> i + length es \<le> length us \<Longrightarrow>
   \<exists>n. count_from g us es i acc = Inr n"
proof (induction es arbitrary: i acc)
  case Nil
  then show ?case by simp
next
  case (Cons l es)
  obtain u v where l: "l = (u, v)" by (cases l)
  from Cons.prems l obtain c where c: "capacity g u v = Some c" by auto
  from Cons.prems have "\<forall>l \<in> set es. capacity g (fst l) (snd l) \<noteq> None"
    "(i + 1) + length es \<le> length us" "i < length us" by simp_all
  with Cons.IH [of "i + 1"] l c show ?case by simp
qed

lemma observe_total:
  "\<forall>l \<in> set es. capacity g (fst l) (snd l) \<noteq> None \<Longrightarrow> i + length es \<le> length us \<Longrightarrow>
   i + length es \<le> length lo \<Longrightarrow> \<exists>obs. observe g us lo es i acc = Inr obs"
proof (induction es arbitrary: i acc)
  case Nil
  then show ?case by simp
next
  case (Cons l es)
  obtain u v where l: "l = (u, v)" by (cases l)
  from Cons.prems l obtain c where c: "capacity g u v = Some c" by auto
  from Cons.prems have "\<forall>l \<in> set es. capacity g (fst l) (snd l) \<noteq> None"
    "(i + 1) + length es \<le> length us" "i < length us"
    "(i + 1) + length es \<le> length lo" "i < length lo" by simp_all
  with Cons.IH [of "i + 1"] l c show ?case by (simp add: Let_def)
qed

lemma open_subgraph_total:
  "\<forall>l \<in> set es. capacity g (fst l) (snd l) \<noteq> None \<Longrightarrow> i + length es \<le> length lo \<Longrightarrow>
   \<exists>G'. open_subgraph g lo es i G = Inr G'"
proof (induction es arbitrary: i G)
  case Nil
  then show ?case by simp
next
  case (Cons l es)
  obtain u v where l: "l = (u, v)" by (cases l)
  from Cons.prems l obtain c where c: "capacity g u v = Some c" by auto
  from Cons.prems have "\<forall>l \<in> set es. capacity g (fst l) (snd l) \<noteq> None"
    "(i + 1) + length es \<le> length lo" "i < length lo" by simp_all
  with Cons.IH [of "i + 1"] l c show ?case by simp
qed

lemma add_path_usage_total:
  "length us = length el \<Longrightarrow> fst (add_path_usage el d p us) = None"
proof (induction el d p us rule: add_path_usage.induct)
  case (1 el d u v rest us)
  show ?case
  proof (cases "edge_index el u v")
    case None
    with "1.IH"(1) "1.prems" show ?thesis by simp
  next
    case (Some k)
    from edge_index_Some [OF Some] "1.prems" have k: "k < length us" by simp
    with "1.IH"(2) [OF Some] "1.prems" Some show ?thesis by simp
  qed
qed simp_all

lemma route_demands_total:
  assumes "sp_total sp" and "tr \<noteq> None"
    and "\<forall>q \<in> set ps. fst q \<in> set (g_nodes G) \<and> snd q \<in> set (g_nodes G)"
    and "length us = length el"
  shows "fst (route_demands sp G el tr ps us) = None"
  using assms(3,4)
proof (induction ps arbitrary: us)
  case Nil
  then show ?case by simp
next
  case (Cons q ps)
  obtain i j where q: "q = (i, j)" by (cases q)
  from assms(2) obtain t where t: "tr = Some t" by auto
  from Cons.prems q have n: "i \<in> set (g_nodes G)" "j \<in> set (g_nodes G)"
    and rest: "\<forall>q \<in> set ps. fst q \<in> set (g_nodes G) \<and> snd q \<in> set (g_nodes G)" by simp_all
  show ?case
  proof (cases "t i j > 0 \<and> i \<noteq> j")
    case False
    with Cons.IH [OF rest Cons.prems(2)] q t show ?thesis by auto
  next
    case True
    show ?thesis
    proof (cases "sp G i j")
      case (Inl err)
      with assms(1) n have "err = NetworkXNoPath" by (auto simp add: sp_total_def)
      with Cons.IH [OF rest Cons.prems(2)] q t True Inl show ?thesis by simp
    next
      case (Inr p)
      obtain r us' where a: "add_path_usage el (t i j) p us = (r, us')"
        by (cases "add_path_usage el (t i j) p us")
      from add_path_usage_total [OF Cons.prems(2), of "t i j" p] a have r: "r = None" by simp
      from add_path_usage_length [of el "t i j" p us] a Cons.prems(2)
      have "length us' = length el" by simp
      from Cons.IH [OF rest this] q t True Inr a r show ?thesis by simp
    qed
  qed
qed

lemma update_total:
  assumes wf: "wf_env e" and tr: "traffic e \<noteq> None" and sp: "sp_total sp"
    and len: "length (edge_list e) \<le> length (link_open e)"
  shows "fst (update_link_usage sp e) = None"
proof -
  let ?G0 = "fold (\<lambda>k g. add_node g k) (g_nodes (graph_nx e)) empty_graph"
  let ?ps = "List.product [0..<nat (num_nodes e)] [0..<nat (num_nodes e)]"
  from wf have caps: "\<forall>l \<in> set (edge_list e). capacity (graph_nx e) (fst l) (snd l) \<noteq> None"
    and ne: "num_edges e = length (edge_list e)"
    and nodes: "\<forall>i \<in> set [0..<nat (num_nodes e)]. i \<in> set (g_nodes (graph_nx e))"
    by (simp_all add: wf_env_def)
  from open_subgraph_total [OF caps, of 0 "link_open e" ?G0] len
  obtain G where G: "open_subgraph (graph_nx e) (link_open e) (edge_list e) 0 ?G0 = Inr G"
    by auto
  from open_subgraph_nodes [OF G] have "set (g_nodes (graph_nx e)) \<subseteq> set (g_nodes G)"
    by (simp add: fold_add_node_nodes)
  with nodes have "\<forall>q \<in> set ?ps. fst q \<in> set (g_nodes G) \<and> snd q \<in> set (g_nodes G)"
    by auto
  from route_demands_total [OF sp tr this, of "replicate (num_edges e) 0" "edge_list e"] ne
  have "fst (route_demands sp G (edge_list e) (traffic e) ?ps (replicate (num_edges e) 0)) = None"
    by simp
  with G show ?thesis
    by (auto simp add: update_link_usage_def Let_def split: prod.splits)
qed

lemma step_total:
  assumes wf: "wf_env e" and tr: "traffic e \<noteq> None" and sp: "sp_total sp"
    and len: "length (edge_list e) \<le> length a"
  shows "\<exists>r. fst (step sp e a) = Inr r"
proof -
  let ?U = "update_link_usage sp (e\<lparr>link_open := a\<rparr>)"
  from wf have w: "wf_env (e\<lparr>link_open := a\<rparr>)" by (simp add: wf_env_def)
  from update_total [OF w _ sp] tr len have u: "fst ?U = None" by simp
  have fr: "snd ?U = e\<lparr>link_open := a, usage := usage (snd ?U)\<rparr>"
    by (subst update_usage_frame) simp
  have f: "graph_nx (snd ?U) = graph_nx e" "edge_list (snd ?U) = edge_list e"
    "link_open (snd ?U) = a"
    by (subst fr, simp)+
  from wf have caps: "\<forall>l \<in> set (edge_list e). capacity (graph_nx e) (fst l) (snd l) \<noteq> None"
    and ne: "num_edges e = length (edge_list e)"
    by (simp_all add: wf_env_def)
  have ul: "length (usage (snd ?U)) = length (edge_list e)"
    using update_usage_length [of sp "e\<lparr>link_open := a\<rparr>"] ne by simp
  from count_from_total [OF caps, of 0 "usage (snd ?U)" 0] ul
  obtain n where n: "count_overloaded_links (snd ?U) = Inr n"
    by (auto simp add: count_overloaded_links_def f)
  from observe_total [OF caps, of 0 "usage (snd ?U)" a "[]"] ul len
  obtain obs where o: "get_observation (snd ?U) = Inr obs"
    by (auto simp add: get_observation_def f)
  from u n o show ?thesis
    by (simp add: step_unfold step_outcome_def)
qed

section \<open>Closing every link\<close>

lemma overload_count_zero:
  assumes "caps_nonneg e" and "usage e = replicate (length (edge_list e)) 0"
  shows "overload_count e = 0"
proof -
  have "\<not> link_overloaded e i" if "i < length (edge_list e)" for i
  proof -
    from assms(1) that have "case link_capacity e i of None \<Rightarrow> True | Some cap \<Rightarrow> 0 \<le> cap"
      by (simp add: caps_nonneg_def)
    moreover from assms(2) that have "usage e ! i = 0" by simp
    ultimately show ?thesis
      by (auto simp add: link_overloaded_def above_capacity_def split: option.splits)
  qed
  then show ?thesis
    by (simp add: overload_count_def filter_empty_conv)
qed

text \<open>
  Claim C5. Whatever the demand matrix and the topology, \<open>step\<close> with the all-zeros
  action (one flag \<open>0\<close> per link) returns, with reward \<open>0\<close> and overload count \<open>0\<close>,
  and leaves a usage vector of zeros. The environment is one that the constructor can
  have built and that has been reset (\<open>wf_env\<close>, a demand matrix present), its
  capacities are non-negative as the data model of the specification has them, and
  \<open>nx.shortest_path\<close> meets its contract.
\<close>

theorem closing_every_link:
  assumes wf: "wf_env e" and tr: "traffic e \<noteq> None"
    and sound: "sp_sound sp" and total: "sp_total sp" and caps: "caps_nonneg e"
  shows "\<exists>obs d. step sp e (replicate (num_edges e) 0) =
           (Inr (obs, 0, d, \<lparr>overloaded_links = 0\<rparr>),
            e\<lparr>current_step := current_step e + 1, link_open := replicate (num_edges e) 0,
              usage := replicate (num_edges e) 0\<rparr>)"
proof -
  let ?a = "replicate (num_edges e) (0 :: int)"
  let ?e1 = "e\<lparr>link_open := ?a\<rparr>"
  let ?U = "update_link_usage sp ?e1"
  from wf have ne: "num_edges e = length (edge_list e)" by (simp add: wf_env_def)
  from wf have w1: "wf_env ?e1" by (simp add: wf_env_def)
  have fr: "snd ?U = e\<lparr>link_open := ?a, usage := usage (snd ?U)\<rparr>"
    by (subst update_usage_frame) simp
  have ul: "length (usage (snd ?U)) = num_edges e"
    using update_usage_length [of sp ?e1] by simp
  have "usage (snd ?U) ! j = 0" if "j < num_edges e" for j
    using update_usage_closed [OF w1 sound, of j] that ne by simp
  with ul have uz: "usage (snd ?U) = replicate (num_edges e) 0"
    by (simp add: list_eq_iff_nth_eq)
  with fr have E: "snd ?U = e\<lparr>link_open := ?a, usage := replicate (num_edges e) 0\<rparr>"
    by simp
  from update_total [OF w1 _ total] tr ne have u: "fst ?U = None" by simp
  from step_total [OF wf tr total, of ?a] ne obtain r where r: "fst (step sp e ?a) = Inr r"
    by auto
  then obtain obs n where n: "count_overloaded_links (snd ?U) = Inr n"
    and o: "get_observation (snd ?U) = Inr obs"
    and rv: "r = (obs, - int n, max_steps e \<le> current_step e + 1, \<lparr>overloaded_links = n\<rparr>)"
    by (auto simp add: step_unfold step_outcome_def u split: sum.splits)
  have el: "edge_list (snd ?U) = edge_list e"
    by (subst E) simp
  from caps have "caps_nonneg (snd ?U)"
    by (subst E) (simp add: caps_nonneg_def link_capacity_def)
  moreover have "usage (snd ?U) = replicate (length (edge_list (snd ?U))) 0"
    by (simp only: el uz ne [symmetric])
  ultimately have "overload_count (snd ?U) = 0" by (rule overload_count_zero)
  with count_overloaded_links_eq [OF n] have n0: "n = 0" by simp
  have "usage (snd (step sp e ?a)) = usage (snd ?U)"
    by (simp add: step_state update_usage_counter_free)
  with uz have "snd (step sp e ?a) =
      e\<lparr>current_step := current_step e + 1, link_open := ?a, usage := replicate (num_edges e) 0\<rparr>"
    by (subst step_frame) simp
  with r rv n0 show ?thesis
    by (simp add: prod_eq_iff)
qed

theorem closing_every_link_witness:
  "wf_env triangle_env \<and> traffic triangle_env \<noteq> None \<and> caps_nonneg triangle_env \<and>
   sp_sound bfs_shortest_path \<and> sp_total bfs_shortest_path \<and>
   usage triangle_env = [0, 15, 0] \<and>
   step bfs_shortest_path triangle_env [0, 0, 0] =
     (Inr ([0, 0, 0, 0, 0, 0], 0, False, \<lparr>overloaded_links = 0\<rparr>),
      triangle_env\<lparr>current_step := 1, link_open := [0, 0, 0], usage := [0, 0, 0]\<rparr>)"
proof -
  have W: "wf_env triangle_env" by code_simp
  have T: "traffic triangle_env \<noteq> None" by code_simp
  have C: "caps_nonneg triangle_env" by code_simp
  have N: "num_edges triangle_env = 3" "current_step triangle_env = 0"
    "usage triangle_env = [0, 15, 0]" by code_simp+
  have F: "fst (step bfs_shortest_path triangle_env [0, 0, 0]) =
     Inr ([0, 0, 0, 0, 0, 0], 0, False, \<lparr>overloaded_links = 0\<rparr>)" by code_simp
  from closing_every_link [OF W T bfs_shortest_path_sound bfs_shortest_path_total C]
    W T C N F bfs_shortest_path_sound bfs_shortest_path_total
  show ?thesis by (auto simp add: numeral_3_eq_3)
qed

section \<open>The generated topology\<close>

lemma sym_graph_add_edge: "sym_graph g \<Longrightarrow> sym_graph (add_edge g u v c)"
  by (auto simp add: sym_graph_def add_edge_has_edge)

lemma connect_chain_mono: "has_edge g a b \<Longrightarrow> has_edge (connect_chain xs c g) a b"
  by (induction xs c g rule: connect_chain.induct) (auto simp add: add_edge_has_edge)

lemma connect_chain_sym: "sym_graph g \<Longrightarrow> sym_graph (connect_chain xs c g)"
  by (induction xs c g rule: connect_chain.induct) (auto simp add: sym_graph_add_edge)

lemma connect_chain_nodes:
  "set (g_nodes (connect_chain xs c g)) \<subseteq> set (g_nodes g) \<union> set xs"
  by (induction xs c g rule: connect_chain.induct) (auto simp add: add_edge_nodes)

lemma connect_chain_nodes_mono:
  "set (g_nodes g) \<subseteq> set (g_nodes (connect_chain xs c g))"
  by (induction xs c g rule: connect_chain.induct) (auto simp add: add_edge_nodes)

lemma connect_chain_links: "successively (has_edge (connect_chain xs c g)) xs"
proof (induction xs c g rule: connect_chain.induct)
  case (1 u v rest c g)
  let ?g1 = "if \<not> has_edge g u v then add_edge g u v c else g"
  have "has_edge ?g1 u v" by (simp add: add_edge_has_edge)
  then have "has_edge (connect_chain (v # rest) c ?g1) u v" by (rule connect_chain_mono)
  with "1.IH" show ?case by simp
qed simp_all

lemma add_random_edges_mono: "has_edge g a b \<Longrightarrow> has_edge (add_random_edges m c ps g) a b"
  unfolding add_random_edges_def
  by (induction ps arbitrary: g) (auto simp add: add_edge_has_edge)

lemma add_random_edges_sym: "sym_graph g \<Longrightarrow> sym_graph (add_random_edges m c ps g)"
  unfolding add_random_edges_def
  by (induction ps arbitrary: g) (auto simp add: sym_graph_add_edge)

lemma add_random_edges_nodes:
  "set (g_nodes (add_random_edges m c ps g)) \<subseteq> set (g_nodes g) \<union> fst ` set ps \<union> snd ` set ps"
  unfolding add_random_edges_def
proof (induction ps arbitrary: g)
  case Nil
  then show ?case by simp
next
  case (Cons p ps)
  obtain u v where p: "p = (u, v)" by (cases p)
  show ?case
    using Cons.IH [of "add_edge g u v c"] Cons.IH [of g] unfolding p
    by (auto simp add: add_edge_nodes)
qed

lemma add_random_edges_nodes_mono:
  "set (g_nodes g) \<subseteq> set (g_nodes (add_random_edges m c ps g))"
  unfolding add_random_edges_def
proof (induction ps arbitrary: g)
  case Nil
  then show ?case by simp
next
  case (Cons p ps)
  obtain u v where p: "p = (u, v)" by (cases p)
  show ?case
    using Cons.IH [of "add_edge g u v c"] Cons.IH [of g] unfolding p
    by (auto simp add: add_edge_nodes)
qed

lemma possible_edges_range:
  "(i, j) \<in> set (possible_edges n g) \<Longrightarrow> i < j \<and> j < n \<and> \<not> has_edge g i j"
  by (auto simp add: possible_edges_def)

lemma chain_reach:
  "successively (\<lambda>a b. (a, b) \<in> R) xs \<Longrightarrow> u \<in> set xs \<Longrightarrow> (hd xs, u) \<in> R\<^sup>*"
proof (induction xs)
  case Nil
  then show ?case by simp
next
  case (Cons x xs)
  show ?case
  proof (cases "u = x")
    case True
    then show ?thesis by simp
  next
    case False
    with Cons.prems have u: "u \<in> set xs" by simp
    then obtain y ys where xs: "xs = y # ys" by (cases xs) auto
    with Cons.prems(1) have "(x, y) \<in> R" "successively (\<lambda>a b. (a, b) \<in> R) xs" by simp_all
    with Cons.IH u xs show ?thesis by (auto intro: converse_rtrancl_into_rtrancl)
  qed
qed

lemma build_topology_nodes:
  assumes "is_shuffle (shuffle_nodes rnd)" and "is_shuffle (shuffle_pairs rnd)"
  shows "set (g_nodes (build_topology n m c rnd)) = set [0..<nat n]"
proof -
  let ?g0 = "fold (\<lambda>k g. add_node g k) [0..<nat n] empty_graph"
  let ?xs = "shuffle_nodes rnd [0..<nat n]"
  let ?g1 = "connect_chain ?xs c ?g0"
  let ?ps = "shuffle_pairs rnd (possible_edges (nat n) ?g1)"
  from assms(1) have "mset ?xs = mset [0..<nat n]" by (simp add: is_shuffle_def)
  then have xs: "set ?xs = set [0..<nat n]" by (rule mset_eq_setD)
  from assms(2) have "mset ?ps = mset (possible_edges (nat n) ?g1)" by (simp add: is_shuffle_def)
  then have ps: "set ?ps = set (possible_edges (nat n) ?g1)" by (rule mset_eq_setD)
  have g0: "set (g_nodes ?g0) = set [0..<nat n]"
    by (simp add: fold_add_node_nodes empty_graph_def)
  have 1: "set (g_nodes ?g1) = set [0..<nat n]"
    using connect_chain_nodes [of ?xs c ?g0] connect_chain_nodes_mono [of ?g0 ?xs c] xs g0
    by auto
  have "fst ` set ?ps \<union> snd ` set ?ps \<subseteq> set [0..<nat n]"
    unfolding ps using possible_edges_range [of _ _ "nat n" ?g1] by fastforce
  with add_random_edges_nodes [of m c ?ps ?g1] add_random_edges_nodes_mono [of ?g1 m c ?ps] 1
  have "set (g_nodes (add_random_edges m c ?ps ?g1)) = set [0..<nat n]"
    by blast
  then show ?thesis by (simp add: build_topology_def Let_def)
qed

lemma build_topology_connected:
  assumes "is_shuffle (shuffle_nodes rnd)" and "is_shuffle (shuffle_pairs rnd)"
  shows "graph_connected (build_topology n max_if c rnd)"
proof -
  let ?g0 = "fold (\<lambda>k g. add_node g k) [0..<nat n] empty_graph"
  let ?xs = "shuffle_nodes rnd [0..<nat n]"
  let ?g1 = "connect_chain ?xs c ?g0"
  let ?ps = "shuffle_pairs rnd (possible_edges (nat n) ?g1)"
  let ?G = "build_topology n max_if c rnd"
  let ?R = "{(a, b). has_edge ?G a b}"
  have G: "?G = add_random_edges max_if c ?ps ?g1"
    by (simp add: build_topology_def Let_def)
  from assms(1) have "mset ?xs = mset [0..<nat n]" by (simp add: is_shuffle_def)
  then have xs: "set ?xs = set [0..<nat n]" by (rule mset_eq_setD)
  have "sym_graph ?g0"
    by (simp add: sym_graph_def has_edge_def fold_add_node_adj empty_graph_def)
  then have "sym_graph ?G"
    unfolding G by (intro add_random_edges_sym connect_chain_sym)
  then have sym: "sym ?R" by (auto simp add: sym_graph_def sym_def)
  have "successively (has_edge ?g1) ?xs" by (rule connect_chain_links)
  then have "successively (has_edge ?G) ?xs"
    unfolding G by (rule successively_mono) (auto intro: add_random_edges_mono)
  then have chain: "successively (\<lambda>a b. (a, b) \<in> ?R) ?xs" by simp
  have "(u, v) \<in> ?R\<^sup>*" if u: "u \<in> set (g_nodes ?G)" and v: "v \<in> set (g_nodes ?G)" for u v
  proof -
    from u v have "u \<in> set ?xs" "v \<in> set ?xs"
      by (simp_all only: build_topology_nodes [OF assms] xs)
    from chain_reach [OF chain this(1)] chain_reach [OF chain this(2)]
    have "(hd ?xs, u) \<in> ?R\<^sup>*" "(hd ?xs, v) \<in> ?R\<^sup>*" .
    moreover from sym have "sym (?R\<^sup>*)" by (rule sym_rtrancl)
    ultimately show ?thesis by (meson symD rtrancl_trans)
  qed
  then show ?thesis by (simp add: graph_connected_def)
qed

section \<open>The invariant of the constructor\<close>

text \<open>Every environment that the constructor returns satisfies \<open>wf_env\<close>, and \<open>reset\<close>
  and \<open>step\<close> keep it; after a \<open>reset\<close> that is not refused a demand matrix is present,
  and \<open>step\<close> keeps it.\<close>

lemma graph_inv_add_node: "graph_inv g \<Longrightarrow> graph_inv (add_node g n)"
  by (simp add: graph_inv_def add_node_def)

lemma graph_inv_add_edge: "graph_inv g \<Longrightarrow> graph_inv (add_edge g u v c)"
  by (simp add: graph_inv_def add_edge_def Let_def add_node_def distinct_update)

lemma graph_inv_fold_add_node:
  "graph_inv g \<Longrightarrow> graph_inv (fold (\<lambda>k g. add_node g k) ns g)"
  by (induction ns arbitrary: g) (simp_all add: graph_inv_add_node)

lemma graph_inv_connect_chain: "graph_inv g \<Longrightarrow> graph_inv (connect_chain xs c g)"
  by (induction xs c g rule: connect_chain.induct) (auto simp add: graph_inv_add_edge)

lemma graph_inv_add_random_edges: "graph_inv g \<Longrightarrow> graph_inv (add_random_edges m c ps g)"
  unfolding add_random_edges_def
  by (induction ps arbitrary: g) (auto simp add: graph_inv_add_edge)

lemma graph_inv_build_topology: "graph_inv (build_topology n m c rnd)"
  unfolding build_topology_def Let_def
  by (intro graph_inv_add_random_edges graph_inv_connect_chain graph_inv_fold_add_node)
     (simp add: graph_inv_def empty_graph_def)

lemma comprehension_filter: "[(n, x). x \<leftarrow> xs, P x] = map (Pair n) (filter P xs)"
  by (induction xs) simp_all

lemma edges_from_Cons:
  "edges_from g (n # ns) seen =
   map (Pair n) (filter (\<lambda>x. x \<notin> set seen) (map fst (g_adj g n))) @ edges_from g ns (n # seen)"
  by (simp only: edges_from.simps comprehension_filter)

lemma edges_from_mem:
  "(a, b) \<in> set (edges_from g ns seen) \<Longrightarrow>
   a \<in> set ns \<and> b \<notin> set seen \<and> b \<in> fst ` set (g_adj g a)"
proof (induction ns arbitrary: seen)
  case Nil
  then show ?case by simp
next
  case (Cons n ns)
  from Cons.prems
  have "(a, b) \<in> set (map (Pair n) (filter (\<lambda>x. x \<notin> set seen) (map fst (g_adj g n)))) \<or>
        (a, b) \<in> set (edges_from g ns (n # seen))"
    unfolding edges_from_Cons by simp
  then show ?case
  proof
    assume "(a, b) \<in> set (map (Pair n) (filter (\<lambda>x. x \<notin> set seen) (map fst (g_adj g n))))"
    then show ?thesis by auto
  next
    assume "(a, b) \<in> set (edges_from g ns (n # seen))"
    from Cons.IH [OF this] show ?thesis by simp
  qed
qed

lemma link_key_eq:
  "link_key (a, b) = link_key (a', b') \<Longrightarrow> (a = a' \<and> b = b') \<or> (a = b' \<and> b = a')"
  by (auto simp add: link_key_def min_def max_def split: if_splits)

lemma edges_from_distinct:
  "distinct ns \<Longrightarrow> \<forall>u. distinct (map fst (g_adj g u)) \<Longrightarrow>
   distinct (map link_key (edges_from g ns seen))"
proof (induction ns arbitrary: seen)
  case Nil
  then show ?case by simp
next
  case (Cons n ns)
  let ?nb = "filter (\<lambda>x. x \<notin> set seen) (map fst (g_adj g n))"
  from Cons.prems(2) have "distinct ?nb" by simp
  moreover have "inj_on (\<lambda>x. link_key (n, x)) (set ?nb)"
    by (rule inj_onI) (auto dest: link_key_eq)
  ultimately have 1: "distinct (map link_key (map (Pair n) ?nb))"
    by (simp add: distinct_map comp_def)
  from Cons.prems have 2: "distinct (map link_key (edges_from g ns (n # seen)))"
    by (intro Cons.IH) simp_all
  have 3: "link_key p \<noteq> link_key q"
    if p: "p \<in> set (map (Pair n) ?nb)" and q: "q \<in> set (edges_from g ns (n # seen))" for p q
  proof
    assume eq: "link_key p = link_key q"
    from p obtain b where pb: "p = (n, b)" by auto
    obtain a' b' where qa: "q = (a', b')" by (cases q)
    from q qa edges_from_mem [of a' b' g ns "n # seen"]
    have "a' \<in> set ns" "b' \<noteq> n" by auto
    with Cons.prems(1) have "a' \<noteq> n" by auto
    with eq pb qa \<open>b' \<noteq> n\<close> show False by (auto dest: link_key_eq)
  qed
  have "set (map link_key (map (Pair n) ?nb)) \<inter>
        set (map link_key (edges_from g ns (n # seen))) = {}"
    using 3 by (simp only: set_map) blast
  with 1 2 show ?case
    unfolding edges_from_Cons map_append by (simp only: distinct_append)
qed

lemma edges_capacity:
  "l \<in> set (edges g) \<Longrightarrow> capacity g (fst l) (snd l) \<noteq> None"
proof -
  assume "l \<in> set (edges g)"
  then have "(fst l, snd l) \<in> set (edges_from g (g_nodes g) [])"
    by (simp add: edges_def)
  from edges_from_mem [OF this] have "snd l \<in> fst ` set (g_adj g (fst l))" by simp
  then show ?thesis
    by (simp add: capacity_def map_of_eq_None_iff)
qed

lemma build_topology_nodes_mono: "set [0..<nat n] \<subseteq> set (g_nodes (build_topology n m c rnd))"
proof -
  have "set [0..<nat n] \<subseteq> set (g_nodes (fold (\<lambda>k g. add_node g k) [0..<nat n] empty_graph))"
    by (simp add: fold_add_node_nodes)
  also have "\<dots> \<subseteq> set (g_nodes (build_topology n m c rnd))"
    unfolding build_topology_def Let_def
    by (rule order_trans [OF connect_chain_nodes_mono add_random_edges_nodes_mono])
  finally show ?thesis .
qed

lemma wf_env_init:
  assumes "NetworkEnv_init n m c steps seed rnd spaces = Inr e"
  shows "wf_env e"
proof -
  let ?g = "build_topology n m c rnd"
  from assms have e: "graph_nx e = ?g" "edge_list e = edges ?g" "num_edges e = length (edges ?g)"
    "num_nodes e = n"
    by (auto simp add: NetworkEnv_init_def Let_def number_of_edges_def split: if_splits option.splits)
  have "graph_inv ?g" by (rule graph_inv_build_topology)
  then have "distinct (map link_key (edges ?g))"
    unfolding edges_def graph_inv_def by (intro edges_from_distinct) simp_all
  moreover have "\<forall>l \<in> set (edges ?g). capacity ?g (fst l) (snd l) \<noteq> None"
    using edges_capacity by blast
  moreover have "\<forall>i \<in> set [0..<nat n]. i \<in> set (g_nodes ?g)"
    using build_topology_nodes_mono [of n m c rnd] by blast
  ultimately show ?thesis
    unfolding wf_env_def e by simp
qed

lemma wf_env_step: "wf_env (snd (step sp e a)) = wf_env e"
  by (subst step_frame) (simp add: wf_env_def)

lemma wf_env_reset: "wf_env (snd (reset sp e draw)) = wf_env e"
  by (subst reset_state, simp, subst update_usage_frame) (simp add: wf_env_def)

lemma traffic_step: "traffic (snd (step sp e a)) = traffic e"
  by (subst step_frame) simp

lemma traffic_reset: "0 \<le> num_nodes e \<Longrightarrow> traffic (snd (reset sp e draw)) \<noteq> None"
  by (subst reset_state, simp, subst update_usage_frame) simp

text \<open>With a capacity that is not negative, the constructor builds an environment whose
  capacities are not negative.\<close>

lemma update_set: "p \<in> set (AList.update k v al) \<Longrightarrow> p = (k, v) \<or> p \<in> set al"
  by (induction al) (auto split: if_splits)

lemma graph_caps_add_edge: "graph_caps c g \<Longrightarrow> graph_caps c (add_edge g u v c)"
  by (auto simp add: graph_caps_def add_edge_def Let_def add_node_adj dest!: update_set)

lemma graph_caps_connect_chain: "graph_caps c g \<Longrightarrow> graph_caps c (connect_chain xs c g)"
  by (induction xs c g rule: connect_chain.induct) (auto simp add: graph_caps_add_edge)

lemma graph_caps_add_random_edges: "graph_caps c g \<Longrightarrow> graph_caps c (add_random_edges m c ps g)"
  unfolding add_random_edges_def
  by (induction ps arbitrary: g) (auto simp add: graph_caps_add_edge)

lemma graph_caps_build_topology: "graph_caps c (build_topology n m c rnd)"
  unfolding build_topology_def Let_def
  by (intro graph_caps_add_random_edges graph_caps_connect_chain)
     (simp add: graph_caps_def fold_add_node_adj empty_graph_def)

lemma caps_nonneg_init:
  assumes "NetworkEnv_init n m c steps seed rnd spaces = Inr e" and "0 \<le> c"
  shows "caps_nonneg e"
proof -
  from assms(1) have g: "graph_nx e = build_topology n m c rnd"
    by (auto simp add: NetworkEnv_init_def Let_def split: if_splits option.splits)
  have "0 \<le> x" if "capacity (graph_nx e) u v = Some x" for u v x
  proof -
    from that have "(v, x) \<in> set (g_adj (graph_nx e) u)"
      by (simp add: capacity_def map_of_SomeD)
    with graph_caps_build_topology [of c n m rnd] g have "snd (v, x) = c"
      unfolding graph_caps_def by metis
    then have "x = c" by simp
    with assms(2) show ?thesis by simp
  qed
  then show ?thesis
    by (auto simp add: caps_nonneg_def link_capacity_def split: option.splits prod.splits)
qed

section \<open>The interface limit\<close>

text \<open>From \<open>max_interfaces = 2\<close> on, no node of a generated topology has more links than
  \<open>max_interfaces\<close>: the chain of the first phase gives a node at most two links, and
  the second phase checks the limit.\<close>

lemma length_update_le: "length (AList.update k v al) \<le> Suc (length al)"
  by (induction al) auto

lemma degree_add_edge_other:
  "w \<noteq> u \<Longrightarrow> w \<noteq> v \<Longrightarrow> degree (add_edge g u v c) w = degree g w"
  by (simp add: degree_def add_edge_has_edge) (simp add: add_edge_def Let_def add_node_adj)

lemma no_loops_add_edge: "u \<noteq> v \<Longrightarrow> no_loops g \<Longrightarrow> no_loops (add_edge g u v c)"
  by (auto simp add: no_loops_def add_edge_has_edge)

lemma degree_add_edge_le:
  assumes "u \<noteq> v" and "no_loops g"
  shows "degree (add_edge g u v c) w \<le> Suc (degree g w)"
proof -
  from no_loops_add_edge [OF assms] assms(2)
  have "\<not> has_edge (add_edge g u v c) w w" "\<not> has_edge g w w"
    by (simp_all add: no_loops_def)
  moreover have "length (g_adj (add_edge g u v c) w) \<le> Suc (length (g_adj g w))"
    using assms(1) length_update_le [of v c "g_adj g u"] length_update_le [of u c "g_adj g v"]
    by (simp add: add_edge_def Let_def add_node_adj)
  ultimately show ?thesis by (simp add: degree_def)
qed

lemma connect_chain_degree:
  "distinct xs \<Longrightarrow> no_loops g \<Longrightarrow> \<forall>w. degree g w \<le> 2 \<Longrightarrow>
   (xs \<noteq> [] \<longrightarrow> degree g (hd xs) \<le> 1) \<Longrightarrow> \<forall>w \<in> set (tl xs). degree g w = 0 \<Longrightarrow>
   no_loops (connect_chain xs c g) \<and> (\<forall>w. degree (connect_chain xs c g) w \<le> 2)"
proof (induction xs c g rule: connect_chain.induct)
  case (1 u v rest c g)
  let ?g1 = "if \<not> has_edge g u v then add_edge g u v c else g"
  from "1.prems"(1) have uv: "u \<noteq> v" and d: "distinct (v # rest)"
    and r: "\<forall>w \<in> set rest. w \<noteq> u \<and> w \<noteq> v" by auto
  from "1.prems" have du: "degree g u \<le> 1" and dv: "degree g v = 0"
    and dr: "\<forall>w \<in> set rest. degree g w = 0" by simp_all
  have nl: "no_loops ?g1" using no_loops_add_edge [OF uv "1.prems"(2)] "1.prems"(2) by simp
  have le: "degree ?g1 w \<le> Suc (degree g w)" for w
    using degree_add_edge_le [OF uv "1.prems"(2), of c w] by simp
  have other: "degree ?g1 w = degree g w" if "w \<noteq> u" "w \<noteq> v" for w
    using degree_add_edge_other [OF that] by simp
  have all: "degree ?g1 w \<le> 2" for w
  proof (cases "w = u \<or> w = v")
    case True
    with le [of w] du dv show ?thesis by auto
  next
    case False
    with other [of w] "1.prems"(3) show ?thesis by simp
  qed
  have hd: "degree ?g1 v \<le> 1" using le [of v] dv by simp
  have tl: "\<forall>w \<in> set rest. degree ?g1 w = 0" using other r dr by simp
  from "1.IH" [OF d nl] all hd tl show ?case by simp
qed simp_all

lemma add_random_edges_Cons:
  "add_random_edges m c ((u, v) # ps) g =
   add_random_edges m c ps
     (if int (degree g u) < m \<and> int (degree g v) < m then add_edge g u v c else g)"
  by (simp add: add_random_edges_def)

lemma add_random_edges_degree:
  "\<forall>p \<in> set ps. fst p \<noteq> snd p \<Longrightarrow> no_loops g \<Longrightarrow> \<forall>w. int (degree g w) \<le> m \<Longrightarrow>
   \<forall>w. int (degree (add_random_edges m c ps g) w) \<le> m"
proof (induction ps arbitrary: g)
  case Nil
  then show ?case by (simp add: add_random_edges_def)
next
  case (Cons p ps)
  obtain u v where p: "p = (u, v)" by (cases p)
  with Cons.prems(1) have uv: "u \<noteq> v" and rest: "\<forall>p \<in> set ps. fst p \<noteq> snd p" by simp_all
  show ?case
  proof (cases "int (degree g u) < m \<and> int (degree g v) < m")
    case False
    then have "add_random_edges m c (p # ps) g = add_random_edges m c ps g"
      unfolding p add_random_edges_Cons by auto
    with Cons.IH [OF rest Cons.prems(2,3)] show ?thesis by simp
  next
    case True
    have b: "int (degree (add_edge g u v c) w) \<le> m" for w
    proof (cases "w = u \<or> w = v")
      case True
      with \<open>int (degree g u) < m \<and> int (degree g v) < m\<close>
        degree_add_edge_le [OF uv Cons.prems(2), of c w] show ?thesis by auto
    next
      case False
      with degree_add_edge_other [of w u v g c] Cons.prems(3) show ?thesis by simp
    qed
    from True have "add_random_edges m c (p # ps) g = add_random_edges m c ps (add_edge g u v c)"
      unfolding p add_random_edges_Cons by auto
    with Cons.IH [OF rest no_loops_add_edge [OF uv Cons.prems(2)], of c] b
    show ?thesis by simp
  qed
qed

lemma interface_limit_from_two:
  assumes "is_shuffle (shuffle_nodes rnd)" and "is_shuffle (shuffle_pairs rnd)" and "2 \<le> m"
  shows "int (degree (build_topology n m c rnd) w) \<le> m"
proof -
  let ?g0 = "fold (\<lambda>k g. add_node g k) [0..<nat n] empty_graph"
  let ?xs = "shuffle_nodes rnd [0..<nat n]"
  let ?g1 = "connect_chain ?xs c ?g0"
  let ?ps = "shuffle_pairs rnd (possible_edges (nat n) ?g1)"
  from assms(1) have "mset ?xs = mset [0..<nat n]" by (simp add: is_shuffle_def)
  from mset_eq_imp_distinct_iff [OF this] have xs: "distinct ?xs" by simp
  from assms(2) have "mset ?ps = mset (possible_edges (nat n) ?g1)" by (simp add: is_shuffle_def)
  then have ps: "set ?ps = set (possible_edges (nat n) ?g1)" by (rule mset_eq_setD)
  have adj0: "g_adj ?g0 = (\<lambda>_. [])" by (simp add: fold_add_node_adj empty_graph_def)
  have d0: "degree ?g0 w = 0" for w by (simp add: degree_def has_edge_def adj0)
  have n0: "no_loops ?g0" by (simp add: no_loops_def has_edge_def adj0)
  from connect_chain_degree [OF xs n0, of c] d0
  have 1: "no_loops ?g1" and le2: "\<forall>w. degree ?g1 w \<le> 2" by simp_all
  have 2: "\<forall>w. int (degree ?g1 w) \<le> m"
  proof
    fix w
    from le2 have "int (degree ?g1 w) \<le> 2" by (simp add: le2)
    with assms(3) show "int (degree ?g1 w) \<le> m" by linarith
  qed
  have 3: "\<forall>p \<in> set ?ps. fst p \<noteq> snd p"
  proof
    fix p assume "p \<in> set ?ps"
    then have "(fst p, snd p) \<in> set (possible_edges (nat n) ?g1)" by (simp add: ps)
    from possible_edges_range [OF this] show "fst p \<noteq> snd p" by simp
  qed
  from add_random_edges_degree [OF 3 1 2, of c] show ?thesis
    by (simp add: build_topology_def Let_def)
qed

text \<open>
  Claim C3 says that every node of a generated topology has at most \<open>max_interfaces\<close>
  links for every \<open>max_interfaces\<close> from \<open>1\<close> on, as the docstring of
  \<open>_build_topology\<close> does. The first phase adds its chain without the test of the
  limit that the second phase makes: with three nodes and \<open>max_interfaces = 1\<close> (the
  shuffles leaving the order as it is) the links are \<open>(0, 1)\<close> and \<open>(1, 2)\<close>, and node
  \<open>1\<close> has two links.
\<close>

theorem interface_limit_exceeded_at_one:
  "edges (build_topology 3 1 100 rnd_id) = [(0, 1), (1, 2)] \<and>
   map (degree (build_topology 3 1 100 rnd_id)) [0, 1, 2] = [1, 2, 1] \<and>
   \<not> int (degree (build_topology 3 1 100 rnd_id) 1) \<le> 1"
  by code_simp

section \<open>Connectivity of the generated topology\<close>

lemma edges_from_complete:
  "n \<in> set ns \<Longrightarrow> b \<in> fst ` set (g_adj g n) \<Longrightarrow> b \<notin> set seen \<Longrightarrow>
   b \<notin> set (takeWhile (\<lambda>x. x \<noteq> n) ns) \<Longrightarrow> (n, b) \<in> set (edges_from g ns seen)"
proof (induction ns arbitrary: seen)
  case Nil
  then show ?case by simp
next
  case (Cons m ns)
  show ?case
  proof (cases "n = m")
    case True
    with Cons.prems(2,3) show ?thesis
      unfolding edges_from_Cons by auto
  next
    case False
    with Cons.prems have "n \<in> set ns" "b \<notin> set (m # seen)"
      "b \<notin> set (takeWhile (\<lambda>x. x \<noteq> n) ns)" by auto
    from Cons.IH [OF this(1) Cons.prems(2) this(2,3)] show ?thesis
      unfolding edges_from_Cons by simp
  qed
qed

lemma before_or_after:
  "x \<in> set ns \<Longrightarrow> y \<in> set ns \<Longrightarrow>
   y \<notin> set (takeWhile (\<lambda>z. z \<noteq> x) ns) \<or> x \<notin> set (takeWhile (\<lambda>z. z \<noteq> y) ns)"
proof (induction ns)
  case Nil
  then show ?case by simp
next
  case (Cons m ns)
  show ?case
  proof (cases "m = x")
    case True
    then have "y \<notin> set (takeWhile (\<lambda>z. z \<noteq> x) (m # ns))" by simp
    then show ?thesis by (rule disjI1)
  next
    case mx: False
    show ?thesis
    proof (cases "m = y")
      case True
      then have "x \<notin> set (takeWhile (\<lambda>z. z \<noteq> y) (m # ns))" by simp
      then show ?thesis by (rule disjI2)
    next
      case my: False
      from mx my have ne: "x \<noteq> m" "y \<noteq> m" by blast+
      from Cons.prems(1) ne(1) have x: "x \<in> set ns" by simp
      from Cons.prems(2) ne(2) have y: "y \<in> set ns" by simp
      from Cons.IH [OF x y] mx my show ?thesis by simp
    qed
  qed
qed

lemma edges_cover:
  assumes "sym_graph g" and "has_edge g a b"
    and "a \<in> set (g_nodes g)" and "b \<in> set (g_nodes g)"
  shows "(a, b) \<in> set (edges g) \<or> (b, a) \<in> set (edges g)"
proof -
  from assms(1,2) have ba: "has_edge g b a" by (simp add: sym_graph_def)
  from before_or_after [OF assms(3,4)] show ?thesis
  proof
    assume "b \<notin> set (takeWhile (\<lambda>z. z \<noteq> a) (g_nodes g))"
    from edges_from_complete [OF assms(3) _ _ this, of g "[]"] assms(2)
    show ?thesis by (simp add: edges_def has_edge_def)
  next
    assume "a \<notin> set (takeWhile (\<lambda>z. z \<noteq> b) (g_nodes g))"
    from edges_from_complete [OF assms(4) _ _ this, of g "[]"] ba
    show ?thesis by (simp add: edges_def has_edge_def)
  qed
qed

lemma sym_graph_build_topology: "sym_graph (build_topology n m c rnd)"
  unfolding build_topology_def Let_def
  by (intro add_random_edges_sym connect_chain_sym)
     (simp add: sym_graph_def has_edge_def fold_add_node_adj empty_graph_def)

lemma ends_are_nodes_add_edge: "ends_are_nodes g \<Longrightarrow> ends_are_nodes (add_edge g u v c)"
  by (auto simp add: ends_are_nodes_def add_edge_has_edge add_edge_nodes)

lemma ends_are_nodes_connect_chain: "ends_are_nodes g \<Longrightarrow> ends_are_nodes (connect_chain xs c g)"
  by (induction xs c g rule: connect_chain.induct) (auto simp add: ends_are_nodes_add_edge)

lemma ends_are_nodes_add_random_edges:
  "ends_are_nodes g \<Longrightarrow> ends_are_nodes (add_random_edges m c ps g)"
  unfolding add_random_edges_def
  by (induction ps arbitrary: g) (auto simp add: ends_are_nodes_add_edge)

lemma ends_are_nodes_build_topology: "ends_are_nodes (build_topology n m c rnd)"
  unfolding build_topology_def Let_def
  by (intro ends_are_nodes_add_random_edges ends_are_nodes_connect_chain)
     (simp add: ends_are_nodes_def has_edge_def fold_add_node_adj empty_graph_def)

lemma links_connected_graph:
  assumes "sym_graph g" and "ends_are_nodes g" and "graph_connected g"
  shows "links_connected (g_nodes g) (edges g)"
proof -
  let ?A = "{(a, b). has_edge g a b}"
  let ?L = "{(a, b). (a, b) \<in> set (edges g) \<or> (b, a) \<in> set (edges g)}"
  have "?A \<subseteq> ?L"
  proof
    fix p assume "p \<in> ?A"
    then have h: "has_edge g (fst p) (snd p)" by auto
    with assms(2) have "fst p \<in> set (g_nodes g)" "snd p \<in> set (g_nodes g)"
      by (simp_all add: ends_are_nodes_def)
    from edges_cover [OF assms(1) h this] show "p \<in> ?L" by auto
  qed
  then have "?A\<^sup>* \<subseteq> ?L\<^sup>*" by (rule rtrancl_mono)
  with assms(3) show ?thesis
    unfolding graph_connected_def links_connected_def by blast
qed

text \<open>
  Claim C4. Every topology that the generator produces is connected: its nodes are
  \<open>0, ..., num_nodes - 1\<close>, and each of them is reachable from each other one, over the
  edges of the graph and as well over the link list that the environment keeps. The
  first phase links consecutive nodes of a permutation of all nodes, whatever
  \<open>max_interfaces\<close> is, and the second phase only adds links. The two shuffles permute
  their arguments.
\<close>

theorem generated_topology_connected:
  assumes "is_shuffle (shuffle_nodes rnd)" and "is_shuffle (shuffle_pairs rnd)"
  shows "set (g_nodes (build_topology n max_if c rnd)) = set [0..<nat n] \<and>
         graph_connected (build_topology n max_if c rnd) \<and>
         links_connected [0..<nat n] (edges (build_topology n max_if c rnd)) \<and>
         (NetworkEnv_init n max_if c steps seed rnd spaces = Inr e \<longrightarrow>
            links_connected [0..<nat (num_nodes e)] (edge_list e))"
proof -
  let ?G = "build_topology n max_if c rnd"
  have nodes: "set (g_nodes ?G) = set [0..<nat n]"
    by (rule build_topology_nodes [OF assms])
  have conn: "graph_connected ?G"
    by (rule build_topology_connected [OF assms])
  from links_connected_graph [OF sym_graph_build_topology ends_are_nodes_build_topology conn]
  have "links_connected (g_nodes ?G) (edges ?G)" .
  then have links: "links_connected [0..<nat n] (edges ?G)"
    unfolding links_connected_def nodes .
  have "links_connected [0..<nat (num_nodes e)] (edge_list e)"
    if "NetworkEnv_init n max_if c steps seed rnd spaces = Inr e"
  proof -
    from that have "num_nodes e = n" "edge_list e = edges ?G"
      by (auto simp add: NetworkEnv_init_def Let_def split: if_splits option.splits)
    with links show ?thesis by simp
  qed
  with nodes conn links show ?thesis by blast
qed

theorem generated_topology_connected_witness:
  "is_shuffle (shuffle_nodes rnd_rev) \<and> is_shuffle (shuffle_pairs rnd_rev) \<and>
   edges (build_topology 5 2 100 rnd_rev) = [(0, 1), (0, 4), (1, 2), (2, 3), (3, 4)] \<and>
   graph_connected (build_topology 5 2 100 rnd_rev) \<and>
   links_connected [0, 1, 2, 3, 4] [(0, 1), (0, 4), (1, 2), (2, 3), (3, 4)]"
proof -
  have S: "is_shuffle (shuffle_nodes rnd_rev)" "is_shuffle (shuffle_pairs rnd_rev)"
    by (simp_all add: is_shuffle_def rnd_rev_def)
  have E: "edges (build_topology 5 2 100 rnd_rev) = [(0, 1), (0, 4), (1, 2), (2, 3), (3, 4)]"
    by code_simp
  have N: "[0..<nat 5] = [0, 1, 2, 3, 4]"
    by code_simp
  from generated_topology_connected [OF S, of 5 2 100] S E N show ?thesis by simp
qed

section \<open>The reward\<close>

text \<open>
  Claim C1. Whenever \<open>step\<close> returns, the reward is the additive inverse of the number
  of links whose usage is strictly above their capacity in the state that the call
  leaves (a count of links, whatever the size of the excess), and the entry
  \<open>overloaded_links\<close> of the info dictionary is that count. And \<open>step\<close> does return, for
  every environment that the constructor can have built and that has been reset, and
  every action with a flag for each link (\<open>nx.shortest_path\<close> raising nothing but
  \<open>NetworkXNoPath\<close>).
\<close>

theorem reward_is_negated_overload_count:
  "(step sp e a = (Inr (obs, r, d, i), e') \<longrightarrow>
      r = - int (overload_count e') \<and> overloaded_links i = overload_count e') \<and>
   (wf_env e \<and> traffic e \<noteq> None \<and> sp_total sp \<and> length (edge_list e) \<le> length a \<longrightarrow>
      (\<exists>obs d. step sp e a =
         (Inr (obs, - int (overload_count (snd (step sp e a))), d,
               \<lparr>overloaded_links = overload_count (snd (step sp e a))\<rparr>),
          snd (step sp e a))))"
proof -
  have 1: "r = - int (overload_count e') \<and> overloaded_links i = overload_count e'"
    if "step sp e a = (Inr (obs, r, d, i), e')"
    using that by (rule step_reward)
  have 2: "\<exists>obs d. step sp e a =
         (Inr (obs, - int (overload_count (snd (step sp e a))), d,
               \<lparr>overloaded_links = overload_count (snd (step sp e a))\<rparr>),
          snd (step sp e a))"
    if "wf_env e \<and> traffic e \<noteq> None \<and> sp_total sp \<and> length (edge_list e) \<le> length a"
  proof -
    from that obtain res where "fst (step sp e a) = Inr res"
      using step_total [of e sp a] by blast
    then obtain obs' r' d' i' where s: "step sp e a = (Inr (obs', r', d', i'), snd (step sp e a))"
      by (cases res) (simp add: prod_eq_iff)
    from step_reward [OF s] have "r' = - int (overload_count (snd (step sp e a)))"
      and "i' = \<lparr>overloaded_links = overload_count (snd (step sp e a))\<rparr>"
      by simp_all
    with s show ?thesis by auto
  qed
  from 1 2 show ?thesis by blast
qed

theorem reward_is_negated_overload_count_witness:
  "wf_env triangle_env \<and> traffic triangle_env \<noteq> None \<and> sp_total bfs_shortest_path \<and>
   fst (step bfs_shortest_path triangle_env [1, 0, 1]) =
     Inr ([3 / 2, 1, 0, 0, 3 / 2, 1], - 2, False, \<lparr>overloaded_links = 2\<rparr>) \<and>
   usage (snd (step bfs_shortest_path triangle_env [1, 0, 1])) = [15, 0, 15] \<and>
   overload_count (snd (step bfs_shortest_path triangle_env [1, 0, 1])) = 2"
proof -
  have W: "wf_env triangle_env" "traffic triangle_env \<noteq> None" by code_simp+
  have U: "usage (snd (step bfs_shortest_path triangle_env [1, 0, 1])) = [15, 0, 15]"
    by code_simp
  have E: "fst (step bfs_shortest_path triangle_env [1, 0, 1]) =
     Inr ([3 / 2, 1, 0, 0, 3 / 2, 1], - 2, False, \<lparr>overloaded_links = 2\<rparr>)"
    by code_simp
  then have "step bfs_shortest_path triangle_env [1, 0, 1] =
     (Inr ([3 / 2, 1, 0, 0, 3 / 2, 1], - 2, False, \<lparr>overloaded_links = 2\<rparr>),
      snd (step bfs_shortest_path triangle_env [1, 0, 1]))"
    by (simp add: prod_eq_iff)
  with reward_is_negated_overload_count [of bfs_shortest_path triangle_env "[1, 0, 1]"
      "[3 / 2, 1, 0, 0, 3 / 2, 1]" "- 2" False "\<lparr>overloaded_links = 2\<rparr>"
      "snd (step bfs_shortest_path triangle_env [1, 0, 1])"]
    W U E bfs_shortest_path_total
  show ?thesis by simp
qed

section \<open>The constructor\<close>

text \<open>The number of links of a generated topology: none with fewer than two nodes, at
  least one from two nodes on.\<close>

lemma edges_from_no_adj: "g_adj g = (\<lambda>_. []) \<Longrightarrow> edges_from g ns seen = []"
proof (induction ns arbitrary: seen)
  case Nil
  then show ?case by simp
next
  case (Cons n ns)
  then show ?case unfolding edges_from_Cons by simp
qed

lemma number_of_edges_few_nodes:
  assumes "is_shuffle (shuffle_nodes rnd)" and "is_shuffle (shuffle_pairs rnd)" and "n < 2"
  shows "number_of_edges (build_topology n m c rnd) = 0"
proof -
  let ?g0 = "fold (\<lambda>k g. add_node g k) [0..<nat n] empty_graph"
  let ?xs = "shuffle_nodes rnd [0..<nat n]"
  from assms(1) have "mset ?xs = mset [0..<nat n]" by (simp add: is_shuffle_def)
  then have "size (mset ?xs) = size (mset [0..<nat n])" by simp
  with assms(3) have "length ?xs < 2" by simp
  then have "?xs = [] \<or> (\<exists>x. ?xs = [x])"
    by (cases ?xs) (auto simp add: length_Suc_conv)
  then have g1: "connect_chain ?xs c ?g0 = ?g0" by auto
  from assms(3) have "possible_edges (nat n) ?g0 = []"
    by (auto simp add: possible_edges_def)
  moreover from assms(2) have "mset (shuffle_pairs rnd []) = mset ([] :: (nat \<times> nat) list)"
    unfolding is_shuffle_def by blast
  ultimately have ps: "shuffle_pairs rnd (possible_edges (nat n) ?g0) = []" by simp
  have "build_topology n m c rnd = ?g0"
    by (simp add: build_topology_def Let_def g1 ps add_random_edges_def)
  moreover have "g_adj ?g0 = (\<lambda>_. [])" by (simp add: fold_add_node_adj empty_graph_def)
  ultimately show ?thesis
    by (simp add: number_of_edges_def edges_def edges_from_no_adj)
qed

lemma number_of_edges_two_nodes:
  assumes "is_shuffle (shuffle_nodes rnd)" and "2 \<le> n"
  shows "0 < number_of_edges (build_topology n m c rnd)"
proof -
  let ?g0 = "fold (\<lambda>k g. add_node g k) [0..<nat n] empty_graph"
  let ?xs = "shuffle_nodes rnd [0..<nat n]"
  let ?g1 = "connect_chain ?xs c ?g0"
  let ?G = "build_topology n m c rnd"
  from assms(1) have "mset ?xs = mset [0..<nat n]" by (simp add: is_shuffle_def)
  then have "size (mset ?xs) = size (mset [0..<nat n])" by simp
  with assms(2) have "2 \<le> length ?xs" by simp
  then obtain a b rest where xs: "?xs = a # b # rest"
    by (cases ?xs; cases "tl ?xs") auto
  have "successively (has_edge ?g1) ?xs" by (rule connect_chain_links)
  with xs have "has_edge ?g1 a b" by simp
  then have h: "has_edge ?G a b"
    unfolding build_topology_def Let_def by (rule add_random_edges_mono)
  with ends_are_nodes_build_topology [of n m c rnd]
  have "a \<in> set (g_nodes ?G)" "b \<in> set (g_nodes ?G)"
    by (simp_all add: ends_are_nodes_def)
  from edges_cover [OF sym_graph_build_topology h this]
  have "edges ?G \<noteq> []" by auto
  then show ?thesis by (simp add: number_of_edges_def)
qed

text \<open>
  Claim C9, as the code has it. The constructor makes no range check of its own on
  \<open>num_nodes\<close>, \<open>max_interfaces\<close> or \<open>max_steps\<close>. It fails with \<open>ValueError\<close> for a seed
  outside \<open>0 .. 2^32 - 1\<close>, and otherwise exactly when the space declarations of \<open>gym\<close>
  refuse the number of links; else it returns an environment that stores the three
  values unchanged, with step counter \<open>0\<close>. So with at least two nodes, where there
  is a link, every \<open>max_interfaces\<close> and \<open>max_steps\<close>, non-positive ones included, is
  accepted. With fewer than two nodes, a non-positive \<open>num_nodes\<close> included, there is no
  link, and the construction fails exactly when \<open>gym\<close> refuses an empty space, with
  the exception of that refusal.
\<close>

theorem constructor_checks_no_range:
  "(\<not> seed_ok seed \<longrightarrow>
      NetworkEnv_init n max_if max_cap steps seed rnd spaces = Inl ValueError) \<and>
   (seed_ok seed \<longrightarrow>
      (case spaces (number_of_edges (build_topology n max_if max_cap rnd)) of
         Some err \<Rightarrow> NetworkEnv_init n max_if max_cap steps seed rnd spaces = Inl err
       | None \<Rightarrow>
           (\<exists>e. NetworkEnv_init n max_if max_cap steps seed rnd spaces = Inr e \<and>
                num_nodes e = n \<and> max_interfaces e = max_if \<and> max_capacity e = max_cap \<and>
                max_steps e = steps \<and> current_step e = 0))) \<and>
   (seed_ok seed \<and> 2 \<le> n \<and> is_shuffle (shuffle_nodes rnd) \<and> spaces_accept_links spaces \<longrightarrow>
      (\<exists>e. NetworkEnv_init n max_if max_cap steps seed rnd spaces = Inr e \<and>
           num_nodes e = n \<and> max_interfaces e = max_if \<and> max_steps e = steps)) \<and>
   (seed_ok seed \<and> n < 2 \<and> is_shuffle (shuffle_nodes rnd) \<and> is_shuffle (shuffle_pairs rnd) \<longrightarrow>
      NetworkEnv_init n max_if max_cap steps seed rnd spaces =
        (case spaces 0 of
           Some err \<Rightarrow> Inl err
         | None \<Rightarrow> NetworkEnv_init n max_if max_cap steps seed rnd spaces_accept_all))"
proof -
  let ?k = "number_of_edges (build_topology n max_if max_cap rnd)"
  have 1: "\<not> seed_ok seed \<longrightarrow>
      NetworkEnv_init n max_if max_cap steps seed rnd spaces = Inl ValueError"
    by (simp add: NetworkEnv_init_def)
  have 2: "seed_ok seed \<longrightarrow>
      (case spaces ?k of
         Some err \<Rightarrow> NetworkEnv_init n max_if max_cap steps seed rnd spaces = Inl err
       | None \<Rightarrow>
           (\<exists>e. NetworkEnv_init n max_if max_cap steps seed rnd spaces = Inr e \<and>
                num_nodes e = n \<and> max_interfaces e = max_if \<and> max_capacity e = max_cap \<and>
                max_steps e = steps \<and> current_step e = 0))"
    by (simp add: NetworkEnv_init_def Let_def split: option.splits)
  have 3: "\<exists>e. NetworkEnv_init n max_if max_cap steps seed rnd spaces = Inr e \<and>
           num_nodes e = n \<and> max_interfaces e = max_if \<and> max_steps e = steps"
    if "seed_ok seed \<and> 2 \<le> n \<and> is_shuffle (shuffle_nodes rnd) \<and> spaces_accept_links spaces"
  proof -
    from that number_of_edges_two_nodes [of rnd n max_if max_cap] have "0 < ?k" by simp
    with that have "spaces ?k = None" by (simp add: spaces_accept_links_def)
    with that show ?thesis by (simp add: NetworkEnv_init_def Let_def)
  qed
  have 4: "NetworkEnv_init n max_if max_cap steps seed rnd spaces =
        (case spaces 0 of
           Some err \<Rightarrow> Inl err
         | None \<Rightarrow> NetworkEnv_init n max_if max_cap steps seed rnd spaces_accept_all)"
    if "seed_ok seed \<and> n < 2 \<and> is_shuffle (shuffle_nodes rnd) \<and> is_shuffle (shuffle_pairs rnd)"
  proof -
    from that number_of_edges_few_nodes [of rnd n max_if max_cap] have "?k = 0" by simp
    with that show ?thesis
      by (simp add: NetworkEnv_init_def Let_def spaces_accept_all_def split: option.splits)
  qed
  from 1 2 3 4 show ?thesis by blast
qed

theorem constructor_checks_no_range_witness:
  "seed_ok (Some 7) \<and> \<not> seed_ok (Some (- 1)) \<and>
   is_shuffle (shuffle_nodes rnd_rev) \<and> is_shuffle (shuffle_pairs rnd_rev) \<and>
   spaces_accept_links spaces_reject_empty \<and>
   NetworkEnv_init 6 4 100 10 (Some (- 1)) rnd_rev spaces_reject_empty = Inl ValueError \<and>
   (\<exists>e. NetworkEnv_init 2 (- 1) 100 0 (Some 7) rnd_rev spaces_reject_empty = Inr e \<and>
        num_nodes e = 2 \<and> max_interfaces e = - 1 \<and> max_steps e = 0) \<and>
   NetworkEnv_init 0 4 100 10 (Some 7) rnd_rev spaces_reject_empty = Inl AssertionError \<and>
   \<not> isl (NetworkEnv_init 0 4 100 10 (Some 7) rnd_rev spaces_accept_all)"
proof -
  have A: "seed_ok (Some 7)" and B: "\<not> seed_ok (Some (- 1))"
    by (simp_all add: seed_ok_def)
  have S: "is_shuffle (shuffle_nodes rnd_rev)" "is_shuffle (shuffle_pairs rnd_rev)"
    by (simp_all add: is_shuffle_def rnd_rev_def)
  have G: "spaces_accept_links spaces_reject_empty"
    by (simp add: spaces_accept_links_def spaces_reject_empty_def)
  have Z: "spaces_reject_empty 0 = Some AssertionError" "spaces_accept_all 0 = None"
    by (simp_all add: spaces_reject_empty_def spaces_accept_all_def)
  have L: "\<not> isl (NetworkEnv_init 0 4 100 10 (Some 7) rnd_rev spaces_accept_all)"
    by code_simp
  from constructor_checks_no_range [of "Some (- 1)" 6 4 100 10 rnd_rev spaces_reject_empty]
       constructor_checks_no_range [of "Some 7" 2 "- 1" 100 0 rnd_rev spaces_reject_empty]
       constructor_checks_no_range [of "Some 7" 0 4 100 10 rnd_rev spaces_reject_empty]
       A B S G Z L
  show ?thesis by simp
qed

text \<open>
  The claim as the specification states it (a non-positive \<open>num_nodes\<close>, \<open>max_interfaces\<close>
  or \<open>max_steps\<close> makes the construction fail) does not hold: with two nodes, the
  constructions with \<open>max_interfaces = 0\<close> and \<open>max_steps = 0\<close>, and with
  \<open>max_interfaces = - 1\<close> and \<open>max_steps = - 5\<close>, return an environment with the one link
  \<open>(0, 1)\<close>, whether \<open>gym\<close> refuses an empty space or not.
\<close>

theorem constructor_rejects_nonpositive_counterexample:
  "\<not> isl (NetworkEnv_init 2 0 100 0 None rnd_id spaces_reject_empty) \<and>
   map_sum (\<lambda>err. err) edge_list (NetworkEnv_init 2 0 100 0 None rnd_id spaces_reject_empty)
     = Inr [(0, 1)] \<and>
   \<not> isl (NetworkEnv_init 2 (- 1) 100 (- 5) None rnd_id spaces_reject_empty) \<and>
   map_sum (\<lambda>err. err) edge_list (NetworkEnv_init 2 (- 1) 100 (- 5) None rnd_id spaces_reject_empty)
     = Inr [(0, 1)] \<and>
   \<not> isl (NetworkEnv_init 2 0 100 0 None rnd_id spaces_accept_all)"
  by code_simp

end
